theory Spec2Isabelle
  imports Complex_Main "HOL-Library.Extended_Nat"
begin

section \<open>Deterministic random stream (src/utils/prng.js)\<close>

text \<open>
  JavaScript numbers that hold integers are modelled as \<open>int\<close>, the others as \<open>real\<close>.
  The remainder operator \<open>%\<close> of JavaScript truncates towards zero: the result takes the
  sign of the dividend.
\<close>

definition js_rem :: "int \<Rightarrow> int \<Rightarrow> int" where
  "js_rem a b = sgn a * (\<bar>a\<bar> mod \<bar>b\<bar>)"

record RNG =
  seed :: int
  state :: int

text \<open>
  \<open>create(seed)\<close>: the state is \<open>seed % 2147483647\<close>; when it is not positive the
  source adds 2147483646 to the local \<open>seed\<close>, and the state is stored as it was.
\<close>

definition create :: "int \<Rightarrow> RNG" where
  "create seed0 =
     (let state0 = js_rem seed0 2147483647;
          seed1 = (if state0 \<le> 0 then seed0 + 2147483646 else seed0)
      in \<lparr>seed = seed1, state = state0\<rparr>)"

text \<open>
  \<open>next(rng)\<close> stores the new state in the generator and returns a float; the model
  returns the float together with the updated generator.
\<close>

definition rng_next :: "RNG \<Rightarrow> real \<times> RNG" where
  "rng_next rng =
     (let rng' = rng\<lparr>state := js_rem (state rng * 16807) 2147483647\<rparr>
      in (real_of_int (state rng' - 1) / 2147483646, rng'))"

text \<open>\<open>Number.MAX_SAFE_INTEGER\<close> is \<open>2^53 - 1\<close>.\<close>

definition MAX_SAFE_INTEGER :: real where
  "MAX_SAFE_INTEGER = 9007199254740991"

definition rng_int :: "RNG \<Rightarrow> real \<Rightarrow> real \<Rightarrow> int \<times> RNG" where
  "rng_int rng lo hi = (let (v, rng') = rng_next rng in (\<lfloor>lo + v * (hi - lo)\<rfloor>, rng'))"

definition rng_float :: "RNG \<Rightarrow> real \<Rightarrow> real \<Rightarrow> real \<times> RNG" where
  "rng_float rng lo hi = (let (v, rng') = rng_next rng in (lo + v * (hi - lo), rng'))"

definition chance :: "RNG \<Rightarrow> real \<Rightarrow> bool \<times> RNG" where
  "chance rng probability = (let (v, rng') = rng_next rng in (v \<le> probability, rng'))"

section \<open>Typed arrays and grids\<close>

text \<open>
  A typed array is a list. Reading outside the array gives \<open>undefined\<close> (\<open>None\<close>);
  writing outside it is ignored. Grid coordinates and cell indices are JavaScript
  numbers that hold integers, so they are \<open>int\<close> (a neighbour coordinate may be -1).
\<close>

definition rd :: "'a list \<Rightarrow> int \<Rightarrow> 'a option" where
  "rd xs i = (if 0 \<le> i \<and> i < int (length xs) then Some (xs ! nat i) else None)"

definition wr :: "'a list \<Rightarrow> int \<Rightarrow> 'a \<Rightarrow> 'a list" where
  "wr xs i v = (if 0 \<le> i \<and> i < int (length xs) then xs[nat i := v] else xs)"

text \<open>
  The cells visited by \<open>for (y = 0; y < rows; y++) for (x = 0; x < cols; x++)\<close>, as
  pairs \<open>(x, y)\<close> in the order of the loops.
\<close>

definition scan :: "int \<Rightarrow> int \<Rightarrow> (int \<times> int) list" where
  "scan cols rows = concat (map (\<lambda>y. map (\<lambda>x. (x, y)) [0..cols - 1]) [0..rows - 1])"

text \<open>
  The offsets visited by \<open>for (dy = -1; dy <= 1; dy++) for (dx = -1; dx <= 1; dx++)\<close>
  with \<open>dx = 0, dy = 0\<close> skipped, as pairs \<open>(dx, dy)\<close> in the order of the loops.
\<close>

definition neighbour_offsets :: "(int \<times> int) list" where
  "neighbour_offsets = [(-1, -1), (0, -1), (1, -1), (-1, 0), (1, 0), (-1, 1), (0, 1), (1, 1)]"

definition in_grid :: "int \<Rightarrow> int \<Rightarrow> int \<Rightarrow> int \<Rightarrow> bool" where
  "in_grid w h nx ny = (nx \<ge> 0 \<and> ny \<ge> 0 \<and> nx < w \<and> ny < h)"

section \<open>Terrain (terrain.js)\<close>

text \<open>
  A terrain grid is a \<open>Uint8Array\<close> of \<open>width * height\<close> cells, row-major, holding
  \<open>WATER = 0\<close> or \<open>LAND = 1\<close>. A height map is a \<open>Float32Array\<close>; a float is a real
  number or NaN (\<open>None\<close>).
\<close>

definition WATER :: nat where [simp]: "WATER = 0"
definition LAND :: nat where [simp]: "LAND = 1"

type_synonym num = "real option"

subsection \<open>calculateLandPercent\<close>

text \<open>The quotient \<open>land / terrain.length\<close> is NaN (\<open>None\<close>) for an empty grid.\<close>

definition calculateLandPercent :: "nat list \<Rightarrow> num" where
  "calculateLandPercent terrain =
     (if length terrain = 0 then None
      else Some (real (length (filter (\<lambda>c. c = LAND) terrain)) / real (length terrain)))"

subsection \<open>createFromHeightMap\<close>

text \<open>\<open>heightMap[i] > seaLevel\<close> is false when the read is \<open>undefined\<close> or NaN.\<close>

definition above :: "num option \<Rightarrow> real \<Rightarrow> bool" where
  "above v seaLevel = (case v of Some (Some r) \<Rightarrow> r > seaLevel | _ \<Rightarrow> False)"

fun classify_cells :: "int \<Rightarrow> num list \<Rightarrow> real \<Rightarrow> (int \<times> int) list \<Rightarrow> nat list \<Rightarrow> nat list" where
  "classify_cells w heightMap seaLevel [] terrain = terrain"
| "classify_cells w heightMap seaLevel ((x, y) # cs) terrain =
     (let i = x + y * w
      in classify_cells w heightMap seaLevel cs
           (wr terrain i (if above (rd heightMap i) seaLevel then LAND else WATER)))"

definition createFromHeightMap :: "int \<Rightarrow> int \<Rightarrow> num list \<Rightarrow> real \<Rightarrow> nat list" where
  "createFromHeightMap w h heightMap seaLevel =
     classify_cells w heightMap seaLevel (scan w h) (replicate (nat (w * h)) 0)"

subsection \<open>smooth\<close>

text \<open>
  The number of neighbours with the value of the cell; a neighbour outside the grid
  counts as one. \<open>value ^ 1\<close> flips the low bit.
\<close>

definition same_neighbours :: "int \<Rightarrow> int \<Rightarrow> nat list \<Rightarrow> int \<Rightarrow> int \<Rightarrow> int" where
  "same_neighbours w h current x y =
     (let v = rd current (x + y * w)
      in int (length (filter
           (\<lambda>(dx, dy). let nx = x + dx; ny = y + dy;
                             sample = (if in_grid w h nx ny then rd current (nx + ny * w) else v)
                         in sample = v)
           neighbour_offsets)))"

definition flip :: "nat option \<Rightarrow> nat" where
  "flip v = (case v of None \<Rightarrow> 1 | Some c \<Rightarrow> (if even c then c + 1 else c - 1))"

text \<open>Storing \<open>undefined\<close> in a \<open>Uint8Array\<close> stores 0.\<close>

definition to_uint8 :: "nat option \<Rightarrow> nat" where
  "to_uint8 v = (case v of None \<Rightarrow> 0 | Some c \<Rightarrow> c)"

fun smooth_cells ::
  "int \<Rightarrow> int \<Rightarrow> int \<Rightarrow> nat list \<Rightarrow> (int \<times> int) list \<Rightarrow> nat list \<times> bool \<Rightarrow> nat list \<times> bool" where
  "smooth_cells w h minNeighbours current [] (nxt, stbl) = (nxt, stbl)"
| "smooth_cells w h minNeighbours current ((x, y) # cs) (nxt, stbl) =
     (let v = rd current (x + y * w)
      in if same_neighbours w h current x y < minNeighbours
         then smooth_cells w h minNeighbours current cs (wr nxt (x + y * w) (flip v), False)
         else smooth_cells w h minNeighbours current cs (wr nxt (x + y * w) (to_uint8 v), stbl))"

text \<open>
  The rounds of \<open>smooth\<close>: \<open>k\<close> is the number of iterations left; after a round the two
  buffers are swapped, and a stable round ends the loop. The result is the buffer that
  \<open>terrain.set(current)\<close> copies into the terrain.
\<close>

fun smooth_rounds :: "nat \<Rightarrow> int \<Rightarrow> int \<Rightarrow> int \<Rightarrow> nat list \<Rightarrow> nat list \<Rightarrow> nat list" where
  "smooth_rounds 0 w h minNeighbours current nxt = current"
| "smooth_rounds (Suc k) w h minNeighbours current nxt =
     (let (nxt', stbl) = smooth_cells w h minNeighbours current (scan w h) (nxt, True)
      in if stbl then nxt' else smooth_rounds k w h minNeighbours nxt' current)"

definition smooth :: "int \<Rightarrow> int \<Rightarrow> nat list \<Rightarrow> int \<Rightarrow> nat \<Rightarrow> nat list" where
  "smooth w h terrain minNeighbours iterations =
     smooth_rounds iterations w h minNeighbours terrain terrain"

subsection \<open>Flood fills\<close>

text \<open>
  The state of a flood fill: the bitmap of marked cells (\<open>ocean\<close> or \<open>seen\<close>, a
  \<open>Uint8Array\<close> of \<open>width * height\<close> zeros in which cells are set to 1, held as the set
  of the cells that are set), the stack (top first) and the tiles collected so far.
\<close>

type_synonym fill_state = "int set \<times> int list \<times> int set"

lemma in_grid_index:
  assumes "in_grid w h nx ny"
  shows "0 \<le> nx + ny * w \<and> nx + ny * w < w * h"
proof -
  from assms have b: "0 \<le> nx" "nx < w" "0 \<le> ny" "ny + 1 \<le> h" by (simp_all add: in_grid_def)
  then have "(ny + 1) * w \<le> h * w" by (intro mult_right_mono) simp_all
  then have "ny * w + w \<le> w * h" by (simp add: algebra_simps)
  moreover have "0 \<le> ny * w" using b by simp
  ultimately show ?thesis using b by linarith
qed

definition sea_visit ::
  "int \<Rightarrow> int \<Rightarrow> nat list \<Rightarrow> int \<Rightarrow> int \<Rightarrow> int \<times> int \<Rightarrow> fill_state \<Rightarrow> fill_state" where
  "sea_visit w h terrain x y d s =
     (case (d, s) of ((dx, dy), (ocean, stack, tiles)) \<Rightarrow>
        let nx = x + dx; ny = y + dy; n = nx + ny * w
        in if in_grid w h nx ny \<and> rd terrain n = Some WATER \<and> n \<notin> ocean
           then (insert n ocean, n # stack, insert n tiles)
           else (ocean, stack, tiles))"

definition fill_measure :: "int \<Rightarrow> int \<Rightarrow> fill_state \<Rightarrow> nat" where
  "fill_measure w h s = (case s of (marked, stack, tiles) \<Rightarrow> card ({0..<w * h} - marked) + length stack)"

lemma card_unmarked_insert:
  fixes n w h :: int
  assumes "0 \<le> n" "n < w * h" "n \<notin> marked"
  shows "Suc (card ({0..<w * h} - insert n marked)) = card ({0..<w * h} - marked)"
proof -
  have "n \<in> {0..<w * h} - marked" using assms by simp
  moreover have "{0..<w * h} - insert n marked = ({0..<w * h} - marked) - {n}" by auto
  moreover have "finite ({0..<w * h} - marked)" by simp
  ultimately show ?thesis using card_Suc_Diff1 [of "{0..<w * h} - marked" n] by simp
qed

lemma sea_visit_measure: "fill_measure w h (sea_visit w h terrain x y d s) = fill_measure w h s"
proof (cases d; cases s)
  fix dx dy marked stack tiles
  assume d: "d = (dx, dy)" and s: "s = (marked, stack, tiles)"
  show ?thesis
    using in_grid_index [of w h "x + dx" "y + dy"]
          card_unmarked_insert [of "x + dx + (y + dy) * w" w h marked]
    by (auto simp: d s sea_visit_def fill_measure_def Let_def)
qed

lemma sea_visit_fold_measure:
  "fill_measure w h (fold (sea_visit w h terrain x y) ds s) = fill_measure w h s"
  by (induction ds arbitrary: s) (simp_all add: sea_visit_measure)

lemma sea_visit_unmarked:
  "card ({0..<w * h} - fst (sea_visit w h terrain x y d s)) \<le> card ({0..<w * h} - fst s)"
proof (cases d; cases s)
  fix dx dy marked stack tiles
  assume d: "d = (dx, dy)" and s: "s = (marked, stack, tiles)"
  show ?thesis
    using in_grid_index [of w h "x + dx" "y + dy"]
          card_unmarked_insert [of "x + dx + (y + dy) * w" w h marked]
    by (auto simp: d s sea_visit_def Let_def)
qed

lemma sea_visit_fold_unmarked:
  "card ({0..<w * h} - fst (fold (sea_visit w h terrain x y) ds s)) \<le> card ({0..<w * h} - fst s)"
proof (induction ds arbitrary: s)
  case Nil
  show ?case by simp
next
  case (Cons d ds)
  show ?case using Cons [of "sea_visit w h terrain x y d s"] sea_visit_unmarked [of w h terrain x y d s]
    by simp
qed

function sea_fill :: "int \<Rightarrow> int \<Rightarrow> nat list \<Rightarrow> fill_state \<Rightarrow> int set \<times> int set" where
  "sea_fill w h terrain (ocean, [], tiles) = (ocean, tiles)"
| "sea_fill w h terrain (ocean, i # stack, tiles) =
     sea_fill w h terrain
       (fold (sea_visit w h terrain (i mod w) (i div w)) neighbour_offsets (ocean, stack, tiles))"
  by pat_completeness auto
termination
proof (relation "measure (\<lambda>(w, h, terrain, s). card ({0..<w * h} - fst s) + fill_measure w h s)")
  show "wf (measure (\<lambda>(w, h, terrain, s). card ({0..<w * h} - fst s) + fill_measure w h s))"
    by simp
next
  fix w h :: int and terrain :: "nat list" and ocean :: "int set" and i :: int
    and stack :: "int list" and tiles :: "int set"
  let ?s = "fold (sea_visit w h terrain (i mod w) (i div w)) neighbour_offsets (ocean, stack, tiles)"
  have "fill_measure w h ?s = fill_measure w h (ocean, stack, tiles)"
    by (rule sea_visit_fold_measure)
  moreover have "fill_measure w h (ocean, stack, tiles) < fill_measure w h (ocean, i # stack, tiles)"
    by (simp add: fill_measure_def)
  moreover have "card ({0..<w * h} - fst ?s) \<le> card ({0..<w * h} - fst (ocean, stack, tiles))"
    by (rule sea_visit_fold_unmarked)
  ultimately show "((w, h, terrain, ?s), (w, h, terrain, ocean, i # stack, tiles))
    \<in> measure (\<lambda>(w, h, terrain, s). card ({0..<w * h} - fst s) + fill_measure w h s)"
    by simp
qed

subsection \<open>detectSeas\<close>

record SeaProfile =
  sea_id :: int
  sea_tiles :: "int set"

text \<open>
  The border scan: the loops run \<open>y\<close> below \<open>width\<close> and \<open>x\<close> below \<open>height\<close>. The
  stack is empty whenever the scan reaches a cell, since the fill ends with an empty stack.
\<close>

fun sea_scan ::
  "int \<Rightarrow> int \<Rightarrow> nat list \<Rightarrow> (int \<times> int) list \<Rightarrow> int set \<times> SeaProfile list \<times> int
     \<Rightarrow> int set \<times> SeaProfile list \<times> int" where
  "sea_scan w h terrain [] st = st"
| "sea_scan w h terrain ((x, y) # cs) (ocean, seas, currentSeaId) =
     (let i = x + y * w
      in if x > 0 \<and> y > 0 \<and> x < w - 1 \<and> y < h - 1
         then sea_scan w h terrain cs (ocean, seas, currentSeaId)
         else if rd terrain i \<noteq> Some WATER
         then sea_scan w h terrain cs (ocean, seas, currentSeaId)
         else (let (ocean', tiles) = sea_fill w h terrain (ocean, [i], {})
               in sea_scan w h terrain cs
                    (ocean', seas @ [\<lparr>sea_id = currentSeaId, sea_tiles = tiles\<rparr>],
                     currentSeaId + 1)))"

text \<open>\<open>detectSeas\<close> returns the seas and rewrites the terrain; the model returns both.\<close>

definition detectSeas :: "int \<Rightarrow> int \<Rightarrow> nat list \<Rightarrow> SeaProfile list \<times> nat list" where
  "detectSeas w h terrain =
     (case sea_scan w h terrain (scan h w) ({}, [], 1) of (ocean, seas, currentSeaId) \<Rightarrow>
        (seas, map (\<lambda>i. if int i \<in> ocean then WATER else LAND) [0..<length terrain]))"

subsection \<open>trace\<close>

definition MOORE_NEIGHBOURHOOD :: "(int \<times> int) list" where
  "MOORE_NEIGHBOURHOOD = [(-1, -1), (0, -1), (1, -1), (1, 0), (1, 1), (0, 1), (-1, 1), (-1, 0)]"

text \<open>The variables of \<open>trace\<close>: the current cell, the backtrack cell and the path.\<close>

record tracer =
  t_px :: int
  t_py :: int
  t_bx :: int
  t_by :: int
  t_path :: "int list"

definition start_offset :: "tracer \<Rightarrow> nat" where
  "start_offset s =
     (if t_px s > t_bx s then 7
      else if t_px s < t_bx s then 3
      else if t_py s > t_by s then 1
      else if t_py s < t_by s then 5
      else 0)"

text \<open>
  The \<open>for\<close> loop over the eight neighbours, from the index \<open>i\<close> on: a matching
  neighbour becomes the current cell and ends the loop (\<open>break\<close>) unless it is the last
  cell of the path (\<open>continue\<close>); any other neighbour becomes the backtrack cell.
  \<open>path[path.length - 1]\<close> is \<open>undefined\<close> for the empty path.
\<close>

function trace_scan :: "int \<Rightarrow> int \<Rightarrow> nat list \<Rightarrow> nat \<Rightarrow> nat \<Rightarrow> nat \<Rightarrow> tracer \<Rightarrow> tracer" where
  "trace_scan w h terrain ty offset i s =
     (if i < 8 then
        (let index = (i + offset) mod 8;
             d = MOORE_NEIGHBOURHOOD ! index;
             nx = t_px s + fst d;
             ny = t_py s + snd d;
             n = nx + ny * w;
             valid = in_grid w h nx ny
         in if valid \<and> rd terrain n = Some ty
            then (if t_path s \<noteq> [] \<and> n = last (t_path s)
                  then trace_scan w h terrain ty offset (i + 1) (s\<lparr>t_px := nx, t_py := ny\<rparr>)
                  else s\<lparr>t_px := nx, t_py := ny, t_path := t_path s @ [n]\<rparr>)
            else trace_scan w h terrain ty offset (i + 1) (s\<lparr>t_bx := nx, t_by := ny\<rparr>))
      else s)"
  by pat_completeness auto
termination
  by (relation "measure (\<lambda>(w, h, terrain, ty, offset, i, s). 8 - i)") auto

declare trace_scan.simps [simp del]

text \<open>One round of the \<open>while (true)\<close> loop, up to its exit test.\<close>

definition trace_round :: "int \<Rightarrow> int \<Rightarrow> nat list \<Rightarrow> nat \<Rightarrow> tracer \<Rightarrow> tracer" where
  "trace_round w h terrain ty s =
     trace_scan w h terrain ty (start_offset s) 0 (s\<lparr>t_bx := t_px s, t_by := t_py s\<rparr>)"

partial_function (option) trace_loop ::
  "int \<Rightarrow> int \<Rightarrow> nat list \<Rightarrow> nat \<Rightarrow> int \<Rightarrow> int \<Rightarrow> tracer \<Rightarrow> int list option" where
  "trace_loop w h terrain ty sx sy s =
     (let s' = trace_round w h terrain ty s
      in if t_px s' = sx \<and> t_py s' = sy then Some (t_path s')
         else trace_loop w h terrain ty sx sy s')"

declare trace_loop.simps [code]

definition trace :: "int \<Rightarrow> int \<Rightarrow> int \<Rightarrow> int \<Rightarrow> nat list \<Rightarrow> nat \<Rightarrow> int list option" where
  "trace x y w h terrain ty =
     trace_loop w h terrain ty x y \<lparr>t_px = x, t_py = y, t_bx = x - 1, t_by = y, t_path = []\<rparr>"

subsection \<open>detectLands\<close>

record LandProfile =
  land_id :: int
  land_tiles :: "int set"
  land_path :: "int list"

definition land_visit ::
  "int \<Rightarrow> int \<Rightarrow> nat list \<Rightarrow> int \<Rightarrow> int \<Rightarrow> int \<times> int \<Rightarrow> fill_state \<Rightarrow> fill_state" where
  "land_visit w h terrain x y d s =
     (case (d, s) of ((dx, dy), (seen, stack, tiles)) \<Rightarrow>
        let nx = x + dx; ny = y + dy
        in if in_grid w h nx ny
           then (let n = nx + ny * w
                 in if rd terrain n = Some WATER then (seen, stack, tiles)
                    else if n \<in> seen then (seen, stack, tiles)
                    else (insert n seen, n # stack, insert n tiles))
           else (seen, stack, tiles))"

lemma land_visit_measure: "fill_measure w h (land_visit w h terrain x y d s) = fill_measure w h s"
proof (cases d; cases s)
  fix dx dy marked stack tiles
  assume d: "d = (dx, dy)" and s: "s = (marked, stack, tiles)"
  show ?thesis
    using in_grid_index [of w h "x + dx" "y + dy"]
          card_unmarked_insert [of "x + dx + (y + dy) * w" w h marked]
    by (auto simp: d s land_visit_def fill_measure_def Let_def)
qed

lemma land_visit_fold_measure:
  "fill_measure w h (fold (land_visit w h terrain x y) ds s) = fill_measure w h s"
  by (induction ds arbitrary: s) (simp_all add: land_visit_measure)

lemma land_visit_unmarked:
  "card ({0..<w * h} - fst (land_visit w h terrain x y d s)) \<le> card ({0..<w * h} - fst s)"
proof (cases d; cases s)
  fix dx dy marked stack tiles
  assume d: "d = (dx, dy)" and s: "s = (marked, stack, tiles)"
  show ?thesis
    using in_grid_index [of w h "x + dx" "y + dy"]
          card_unmarked_insert [of "x + dx + (y + dy) * w" w h marked]
    by (auto simp: d s land_visit_def Let_def)
qed

lemma land_visit_fold_unmarked:
  "card ({0..<w * h} - fst (fold (land_visit w h terrain x y) ds s)) \<le> card ({0..<w * h} - fst s)"
proof (induction ds arbitrary: s)
  case Nil
  show ?case by simp
next
  case (Cons d ds)
  show ?case
    using Cons [of "land_visit w h terrain x y d s"] land_visit_unmarked [of w h terrain x y d s]
    by simp
qed

function land_fill :: "int \<Rightarrow> int \<Rightarrow> nat list \<Rightarrow> fill_state \<Rightarrow> int set \<times> int set" where
  "land_fill w h terrain (seen, [], tiles) = (seen, tiles)"
| "land_fill w h terrain (seen, i # stack, tiles) =
     land_fill w h terrain
       (fold (land_visit w h terrain (i mod w) (i div w)) neighbour_offsets (seen, stack, tiles))"
  by pat_completeness auto
termination
proof (relation "measure (\<lambda>(w, h, terrain, s). card ({0..<w * h} - fst s) + fill_measure w h s)")
  show "wf (measure (\<lambda>(w, h, terrain, s). card ({0..<w * h} - fst s) + fill_measure w h s))"
    by simp
next
  fix w h :: int and terrain :: "nat list" and seen :: "int set" and i :: int
    and stack :: "int list" and tiles :: "int set"
  let ?s = "fold (land_visit w h terrain (i mod w) (i div w)) neighbour_offsets (seen, stack, tiles)"
  have "fill_measure w h ?s = fill_measure w h (seen, stack, tiles)"
    by (rule land_visit_fold_measure)
  moreover have "fill_measure w h (seen, stack, tiles) < fill_measure w h (seen, i # stack, tiles)"
    by (simp add: fill_measure_def)
  moreover have "card ({0..<w * h} - fst ?s) \<le> card ({0..<w * h} - fst (seen, stack, tiles))"
    by (rule land_visit_fold_unmarked)
  ultimately show "((w, h, terrain, ?s), (w, h, terrain, seen, i # stack, tiles))
    \<in> measure (\<lambda>(w, h, terrain, s). card ({0..<w * h} - fst s) + fill_measure w h s)"
    by simp
qed

text \<open>
  The scan of \<open>detectLands\<close>. \<open>trace\<close> is called with the \<open>x\<close> and \<open>y\<close> of the scan
  (those of the fill are local to its loop). \<open>None\<close>: a trace does not return.
\<close>

fun land_scan ::
  "int \<Rightarrow> int \<Rightarrow> nat list \<Rightarrow> (int \<times> int) list \<Rightarrow> int set \<times> LandProfile list \<times> int
     \<Rightarrow> (int set \<times> LandProfile list \<times> int) option" where
  "land_scan w h terrain [] st = Some st"
| "land_scan w h terrain ((x, y) # cs) (seen, lands, currentLandId) =
     (let ident = x + y * w
      in if rd terrain ident = Some WATER
         then land_scan w h terrain cs (seen, lands, currentLandId)
         else if ident \<in> seen
         then land_scan w h terrain cs (seen, lands, currentLandId)
         else (let (seen', tiles) = land_fill w h terrain (seen, [ident], {})
               in case trace x y w h terrain LAND of
                    None \<Rightarrow> None
                  | Some p \<Rightarrow>
                      land_scan w h terrain cs
                        (seen',
                         lands @ [\<lparr>land_id = currentLandId, land_tiles = tiles, land_path = p\<rparr>],
                         currentLandId + 1)))"

definition detectLands :: "int \<Rightarrow> int \<Rightarrow> nat list \<Rightarrow> LandProfile list option" where
  "detectLands w h terrain =
     (case land_scan w h terrain (scan w h) ({}, [], 0) of
        None \<Rightarrow> None
      | Some (seen, lands, currentLandId) \<Rightarrow> Some lands)"

section \<open>Fractal height synthesizer (utils/noise.js)\<close>

text \<open>
  Exceptions are values. \<open>TerrainGenerationError\<close> carries which constraint failed (the
  source's message); \<open>Error\<close> is the error thrown by \<open>generate\<close> after the last
  retry, with the number of tries of its message; \<open>RangeError\<close> is thrown by a typed
  array for a negative length or a \<open>set\<close> that does not fit.
\<close>

datatype violation =
  TooLittleLand | TooMuchLand | TooFewSeas | TooManySeas | TooFewLands | TooManyLands

datatype exn = TerrainGenerationError violation | Error nat | RangeError

text \<open>
  Float arithmetic: a float is a real number or NaN; rounding to the float format is not
  modelled. An \<open>undefined\<close> read becomes NaN in arithmetic.
\<close>

definition sample :: "num list \<Rightarrow> int \<Rightarrow> num" where
  "sample arr i = (case rd arr i of None \<Rightarrow> None | Some v \<Rightarrow> v)"

definition fadd :: "num \<Rightarrow> num \<Rightarrow> num" where
  "fadd a b = (case a of None \<Rightarrow> None | Some x \<Rightarrow> (case b of None \<Rightarrow> None | Some y \<Rightarrow> Some (x + y)))"

definition fdiv :: "num \<Rightarrow> real \<Rightarrow> num" where
  "fdiv a c = (case a of None \<Rightarrow> None | Some x \<Rightarrow> Some (x / c))"

text \<open>\<open>new Float32Array(n)\<close>: \<open>n\<close> zeros, or a \<open>RangeError\<close> for a negative \<open>n\<close>.\<close>

definition new_array :: "int \<Rightarrow> exn + num list" where
  "new_array n = (if n < 0 then Inl RangeError else Inr (replicate (nat n) (Some 0)))"

text \<open>
  \<open>array.subarray(begin, end)\<close>: a negative index counts from the end, and both are
  clamped to the array. \<open>target.set(source, offset)\<close> throws when the source does not fit.
\<close>

definition rel_index :: "int \<Rightarrow> int \<Rightarrow> int" where
  "rel_index n k = (if k < 0 then max (n + k) 0 else min k n)"

definition subarray :: "'a list \<Rightarrow> int \<Rightarrow> int \<Rightarrow> 'a list" where
  "subarray xs b e =
     (let n = int (length xs); b' = rel_index n b; e' = rel_index n e
      in take (nat (e' - b')) (drop (nat b') xs))"

definition typed_set :: "'a list \<Rightarrow> 'a list \<Rightarrow> int \<Rightarrow> exn + 'a list" where
  "typed_set target src offset =
     (if offset < 0 \<or> offset + int (length src) > int (length target) then Inl RangeError
      else Inr (take (nat offset) target @ src @ drop (nat offset + length src) target))"

text \<open>
  The size of the working grid: \<open>for (exp = 1; size <= minSize; exp++) size = 2 ** exp + 1\<close>
  (the exponent is \<open>e\<close>).
\<close>

function grid_size :: "nat \<Rightarrow> int \<Rightarrow> int \<Rightarrow> int" where
  "grid_size e sz minSize =
     (if sz \<le> minSize then grid_size (e + 1) (2 ^ e + 1) minSize else sz)"
  by pat_completeness auto
termination
proof (relation "measure (\<lambda>(e, sz, minSize). if sz \<le> minSize then Suc (nat minSize - e) else 0)")
  show "wf (measure (\<lambda>(e, sz, minSize). if sz \<le> minSize then Suc (nat minSize - e) else 0))"
    by simp
next
  fix e :: nat and sz minSize :: int
  assume le: "sz \<le> minSize"
  have "nat minSize - (e + 1) < nat minSize - e" if "(2::int) ^ e + 1 \<le> minSize"
  proof -
    have "int e < 2 ^ e" by (metis of_nat_less_two_power)
    then have "e < nat minSize" using that by linarith
    then show ?thesis by simp
  qed
  then show "((e + 1, 2 ^ e + 1, minSize), (e, sz, minSize))
    \<in> measure (\<lambda>(e, sz, minSize). if sz \<le> minSize then Suc (nat minSize - e) else 0)"
    using le by auto
qed

declare grid_size.simps [simp del]

text \<open>
  The corners: the caller's values (\<open>corners[k]\<close>, NaN when it is missing), or four
  draws in \<open>[0, 1)\<close>.
\<close>

definition seed_corners :: "int \<Rightarrow> num list option \<Rightarrow> num list \<times> RNG \<Rightarrow> num list \<times> RNG" where
  "seed_corners sz corners st =
     (case st of (array, rng) \<Rightarrow>
        let x0 = 0; y0 = 0; x1 = sz - 1; y1 = sz - 1
        in case corners of
             Some cs \<Rightarrow>
               (wr (wr (wr (wr array (x0 + y0 * sz) (sample cs 0)) (x1 + y0 * sz) (sample cs 1))
                     (x0 + y1 * sz) (sample cs 2)) (x1 + y1 * sz) (sample cs 3), rng)
           | None \<Rightarrow>
               (let (c0, rng0) = rng_float rng 0 1;
                    (c1, rng1) = rng_float rng0 0 1;
                    (c2, rng2) = rng_float rng1 0 1;
                    (c3, rng3) = rng_float rng2 0 1
                in (wr (wr (wr (wr array (x0 + y0 * sz) (Some c0)) (x1 + y0 * sz) (Some c1))
                      (x0 + y1 * sz) (Some c2)) (x1 + y1 * sz) (Some c3), rng3)))"

text \<open>The body of the diamond loops: the centre of the square at \<open>(x, y)\<close> with side \<open>i\<close>.\<close>

definition diamond_cell :: "int \<Rightarrow> int \<Rightarrow> real \<Rightarrow> int \<Rightarrow> int \<Rightarrow> num list \<times> RNG \<Rightarrow> num list \<times> RNG" where
  "diamond_cell sz i r x y st =
     (case st of (array, rng) \<Rightarrow>
        let x0 = x; y0 = y; x1 = x0 + i; y1 = y0 + i;
            s0 = sample array (x0 + y0 * sz);
            s1 = sample array (x1 + y0 * sz);
            s2 = sample array (x0 + y1 * sz);
            s3 = sample array (x1 + y1 * sz);
            cx = x0 + i div 2;
            cy = y0 + i div 2;
            (d, rng') = rng_float rng (- r) r;
            v = fadd (fdiv (fadd (fadd (fadd s0 s1) s2) s3) 4) (Some d)
        in (wr array (cx + cy * sz) v, rng'))"

text \<open>The body of the square loops: the midpoints of the four edges.\<close>

definition square_cell :: "int \<Rightarrow> int \<Rightarrow> real \<Rightarrow> int \<Rightarrow> int \<Rightarrow> num list \<times> RNG \<Rightarrow> num list \<times> RNG" where
  "square_cell sz i r x y st =
     (case st of (array, rng) \<Rightarrow>
        let hi = i div 2;
            x0 = x; y0 = y; x1 = x0 + i; y1 = y0 + i;
            s0 = sample array (x0 + y0 * sz);
            s1 = sample array (x1 + y0 * sz);
            s2 = sample array (x0 + y1 * sz);
            s3 = sample array (x1 + y1 * sz);
            cx = x0 + hi;
            cy = y0 + hi;
            cs = sample array (cx + cy * sz);
            d0 = (if y0 = 0 then fdiv (fadd (fadd s0 cs) s1) 3
                  else fdiv (fadd (fadd (fadd s0 cs) s1) (sample array (cx + (y0 - hi) * sz))) 4);
            d1 = (if x0 = 0 then fdiv (fadd (fadd s0 cs) s2) 3
                  else fdiv (fadd (fadd (fadd s0 cs) s2) (sample array (x0 - hi + cy * sz))) 4);
            d2 = (if x1 = sz - 1 then fdiv (fadd (fadd s1 cs) s3) 3
                  else fdiv (fadd (fadd (fadd s1 cs) s3) (sample array (x1 + hi + cy * sz))) 4);
            d3 = (if y1 = sz - 1 then fdiv (fadd (fadd cs s2) s3) 3
                  else fdiv (fadd (fadd (fadd cs s2) s3) (sample array (cx + (y1 + hi) * sz))) 4);
            (e0, rng0) = rng_float rng (- r) r;
            array0 = wr array (cx + y0 * sz) (fadd d0 (Some e0));
            (e1, rng1) = rng_float rng0 (- r) r;
            array1 = wr array0 (x0 + cy * sz) (fadd d1 (Some e1));
            (e2, rng2) = rng_float rng1 (- r) r;
            array2 = wr array1 (x1 + cy * sz) (fadd d2 (Some e2));
            (e3, rng3) = rng_float rng2 (- r) r;
            array3 = wr array2 (cx + y1 * sz) (fadd d3 (Some e3))
        in (array3, rng3))"

text \<open>
  The loops \<open>for (y = 0; y < size - 1; y += i) for (x = 0; x < size - 1; x += i)\<close> around
  a body. They run inside the loop over \<open>i\<close>, whose test \<open>i > 1\<close> makes the step
  positive; the test \<open>0 < i\<close> is repeated here, so that the recursion is total.
\<close>

function sweep_x :: "(int \<Rightarrow> int \<Rightarrow> 's \<Rightarrow> 's) \<Rightarrow> int \<Rightarrow> int \<Rightarrow> int \<Rightarrow> int \<Rightarrow> 's \<Rightarrow> 's" where
  "sweep_x body sz i y x st =
     (if x < sz - 1 \<and> 0 < i then sweep_x body sz i y (x + i) (body x y st) else st)"
  by pat_completeness auto
termination
  by (relation "measure (\<lambda>(body, sz, i, y, x, st). nat (sz - 1 - x))") auto

declare sweep_x.simps [simp del]

function sweep_y :: "(int \<Rightarrow> int \<Rightarrow> 's \<Rightarrow> 's) \<Rightarrow> int \<Rightarrow> int \<Rightarrow> int \<Rightarrow> 's \<Rightarrow> 's" where
  "sweep_y body sz i y st =
     (if y < sz - 1 \<and> 0 < i then sweep_y body sz i (y + i) (sweep_x body sz i y 0 st) else st)"
  by pat_completeness auto
termination
  by (relation "measure (\<lambda>(body, sz, i, y, st). nat (sz - 1 - y))") auto

declare sweep_y.simps [simp del]

text \<open>
  The loop \<open>for (i = size - 1; i > 1; i /= 2)\<close>. The step \<open>i\<close> is a power of two in every
  round (\<open>size - 1\<close> is one), so \<open>i / 2\<close> is the integer quotient.
\<close>

definition amplitude :: "int \<Rightarrow> real \<Rightarrow> real \<Rightarrow> int \<Rightarrow> real" where
  "amplitude sz roughness jitter i = (real_of_int i / real_of_int sz) * roughness + jitter"

function rounds :: "int \<Rightarrow> real \<Rightarrow> real \<Rightarrow> int \<Rightarrow> num list \<times> RNG \<Rightarrow> num list \<times> RNG" where
  "rounds sz roughness jitter i st =
     (if i > 1
      then rounds sz roughness jitter (i div 2)
             (sweep_y (square_cell sz i (amplitude sz roughness jitter i)) sz i 0
               (sweep_y (diamond_cell sz i (amplitude sz roughness jitter i)) sz i 0 st))
      else st)"
  by pat_completeness auto
termination
  by (relation "measure (\<lambda>(sz, roughness, jitter, i, st). nat i)") auto

declare rounds.simps [simp del]

text \<open>\<open>Math.max(0, Math.min(1, v))\<close>; NaN stays NaN.\<close>

definition clamp :: "num \<Rightarrow> num" where
  "clamp v = (case v of None \<Rightarrow> None | Some r \<Rightarrow> Some (max 0 (min 1 r)))"

text \<open>The rows of the result, copied from the working grid.\<close>

fun crop_rows :: "int \<Rightarrow> int \<Rightarrow> num list \<Rightarrow> int list \<Rightarrow> num list \<Rightarrow> exn + num list" where
  "crop_rows sz w array [] slice = Inr slice"
| "crop_rows sz w array (y # ys) slice =
     (let i = y * sz; j = i + w; row = subarray array i j
      in case typed_set slice row (y * w) of
           Inl e \<Rightarrow> Inl e
         | Inr slice' \<Rightarrow> crop_rows sz w array ys slice')"

definition diamondSquare ::
  "int \<Rightarrow> int \<Rightarrow> real \<Rightarrow> real \<Rightarrow> int \<Rightarrow> num list option \<Rightarrow> exn + num list" where
  "diamondSquare w h roughness jitter seed0 corners =
     (let rng = create seed0;
          minSize = max w h;
          sz = grid_size 1 1 minSize
      in case new_array (sz * sz) of
           Inl e \<Rightarrow> Inl e
         | Inr array0 \<Rightarrow>
             (let (array1, rng1) = seed_corners sz corners (array0, rng);
                  (array2, rng2) = rounds sz roughness jitter (sz - 1) (array1, rng1);
                  array3 = map clamp array2
              in if sz = w \<and> sz = h then Inr array3
                 else (case new_array (w * h) of
                         Inl e \<Rightarrow> Inl e
                       | Inr slice \<Rightarrow> crop_rows sz w array3 [0..h - 1] slice)))"

section \<open>Generation orchestrator (terrain.js)\<close>

text \<open>
  The parameters without the seed (\<open>generate\<close> takes \<open>{ seed, ...params }\<close>). Counts
  and sizes are natural numbers; an upper bound may be \<open>Infinity\<close>.
\<close>

record WorldGenerationParams =
  width :: nat
  height :: nat
  seaLevel :: real
  noiseRoughess :: real
  maxSmoothingIterations :: nat
  minLands :: nat
  maxLands :: enat
  minSeas :: nat
  maxSeas :: enat
  minPercentLand :: real
  maxPercentLand :: real
  minLandSize :: nat
  maxLandSize :: enat
  minSeaSize :: nat
  maxSeaSize :: enat
  maxRetries :: nat

record GenerationResult =
  res_width :: nat
  res_height :: nat
  heights :: "num list"
  moisture :: "num list"
  types :: "nat list"
  seas :: "SeaProfile list"
  lands :: "LandProfile list"

text \<open>A comparison with NaN is false.\<close>

definition num_less :: "num \<Rightarrow> real \<Rightarrow> bool" where
  "num_less v c = (case v of None \<Rightarrow> False | Some r \<Rightarrow> r < c)"

definition num_greater :: "num \<Rightarrow> real \<Rightarrow> bool" where
  "num_greater v c = (case v of None \<Rightarrow> False | Some r \<Rightarrow> r > c)"

definition sea_fits :: "WorldGenerationParams \<Rightarrow> SeaProfile \<Rightarrow> bool" where
  "sea_fits P sea =
     (card (sea_tiles sea) \<ge> minSeaSize P \<and> enat (card (sea_tiles sea)) \<le> maxSeaSize P)"

definition land_fits :: "WorldGenerationParams \<Rightarrow> LandProfile \<Rightarrow> bool" where
  "land_fits P land =
     (card (land_tiles land) \<ge> minLandSize P \<and> enat (card (land_tiles land)) \<le> maxLandSize P)"

text \<open>
  The attempt after the two height maps: classification, the land-percent checks,
  smoothing, the seas and the lands with their checks. \<open>None\<close>: the attempt does not
  return (a trace runs forever).
\<close>

definition build_terrain ::
  "WorldGenerationParams \<Rightarrow> num list \<Rightarrow> num list \<Rightarrow> (exn + GenerationResult) option" where
  "build_terrain P heightMap moistureMap =
     (let w = int (width P); h = int (height P);
          terrain = createFromHeightMap w h heightMap (seaLevel P);
          landPercent = calculateLandPercent terrain
      in if num_less landPercent (minPercentLand P)
         then Some (Inl (TerrainGenerationError TooLittleLand))
         else if num_greater landPercent (maxPercentLand P)
         then Some (Inl (TerrainGenerationError TooMuchLand))
         else (let smoothed = smooth w h terrain 4 (maxSmoothingIterations P);
                   detected = detectSeas w h smoothed;
                   seas1 = filter (sea_fits P) (fst detected);
                   terrain1 = snd detected
               in if length seas1 < minSeas P
                  then Some (Inl (TerrainGenerationError TooFewSeas))
                  else if enat (length seas1) > maxSeas P
                  then Some (Inl (TerrainGenerationError TooManySeas))
                  else (case detectLands w h terrain1 of
                          None \<Rightarrow> None
                        | Some found \<Rightarrow>
                            (let lands1 = filter (land_fits P) found
                             in if length lands1 < minLands P
                                then Some (Inl (TerrainGenerationError TooFewLands))
                                else if enat (length lands1) > maxLands P
                                then Some (Inl (TerrainGenerationError TooManyLands))
                                else Some (Inr \<lparr>res_width = width P, res_height = height P,
                                                heights = heightMap, moisture = moistureMap,
                                                types = terrain1, seas = seas1,
                                                lands = lands1\<rparr>)))))"

definition generateUnsafe :: "int \<Rightarrow> WorldGenerationParams \<Rightarrow> (exn + GenerationResult) option" where
  "generateUnsafe seed0 P =
     (let w = int (width P); h = int (height P);
          rng = create seed0;
          draw1 = rng_int rng 0 MAX_SAFE_INTEGER
      in case diamondSquare w h (noiseRoughess P) 0 (fst draw1) None of
           Inl e \<Rightarrow> Some (Inl e)
         | Inr heightMap \<Rightarrow>
             (let draw2 = rng_int (snd draw1) 0 MAX_SAFE_INTEGER
              in case diamondSquare w h 2 0 (fst draw2) None of
                   Inl e \<Rightarrow> Some (Inl e)
                 | Inr moistureMap \<Rightarrow> build_terrain P heightMap moistureMap))"

text \<open>
  \<open>generate\<close>: \<open>k\<close> is the number of tries left and \<open>i\<close> the loop counter. Each try
  is logged (\<open>console.group(`try=${i} seed=${seed}`)\<close>); the model returns the log with
  the outcome. A \<open>TerrainGenerationError\<close> is caught and the next seed is drawn from the
  generator of \<open>generate\<close>; any other exception is thrown again.
\<close>

type_synonym attempt_log = "(nat \<times> int) list"

fun generate_loop ::
  "nat \<Rightarrow> nat \<Rightarrow> RNG \<Rightarrow> int \<Rightarrow> WorldGenerationParams \<Rightarrow> (attempt_log \<times> (exn + GenerationResult)) option" where
  "generate_loop 0 i rng seed0 P = Some ([], Inl (Error (maxRetries P)))"
| "generate_loop (Suc k) i rng seed0 P =
     (case generateUnsafe seed0 P of
        None \<Rightarrow> None
      | Some (Inr result) \<Rightarrow> Some ([(i, seed0)], Inr result)
      | Some (Inl (TerrainGenerationError v)) \<Rightarrow>
          (let draw = rng_int rng 0 MAX_SAFE_INTEGER
           in case generate_loop k (i + 1) (snd draw) (fst draw) P of
                None \<Rightarrow> None
              | Some (tries, outcome) \<Rightarrow> Some ((i, seed0) # tries, outcome))
      | Some (Inl e) \<Rightarrow> Some ([(i, seed0)], Inl e))"

definition generate ::
  "int \<Rightarrow> WorldGenerationParams \<Rightarrow> (attempt_log \<times> (exn + GenerationResult)) option" where
  "generate seed0 P = generate_loop (maxRetries P) 0 (create seed0) seed0 P"

section \<open>Notions of the statements and of the proofs\<close>

text \<open>
  The defaults of \<open>world.js\<close>, the parameters of the examples, and the predicates in
  which the properties of the next sections are stated and proved.
\<close>

text \<open>A working grid: \<open>sz * sz\<close> floats, none of them NaN.\<close>

definition finite_grid :: "int \<Rightarrow> num list \<Rightarrow> bool" where
  "finite_grid sz arr = (int (length arr) = sz * sz \<and> None \<notin> set arr)"

text \<open>A height field: every value is a real number of the unit interval.\<close>

definition unit_value :: "num \<Rightarrow> bool" where
  "unit_value v = (case v of None \<Rightarrow> False | Some r \<Rightarrow> 0 \<le> r \<and> r \<le> 1)"

text \<open>The defaults of \<open>world.js\<close> (the seed, 42, is passed separately).\<close>

definition WORLD_GENERATION_DEFAULTS :: WorldGenerationParams where
  "WORLD_GENERATION_DEFAULTS =
     \<lparr>width = 200, height = 200, seaLevel = 0.5, noiseRoughess = 0.9,
      maxSmoothingIterations = 100, minLands = 1, maxLands = \<infinity>, minSeas = 0, maxSeas = \<infinity>,
      minPercentLand = 0.3, maxPercentLand = 1, minLandSize = 20, maxLandSize = \<infinity>,
      minSeaSize = 20, maxSeaSize = \<infinity>, maxRetries = 1000\<rparr>"

text \<open>
  Parameters that accept at most 50% of land on a 1 by 1 grid, with a sea level that no
  height exceeds.
\<close>

definition lake_params :: WorldGenerationParams where
  "lake_params = WORLD_GENERATION_DEFAULTS
     \<lparr>width := 1, height := 1, seaLevel := 1, minPercentLand := 0, maxPercentLand := 0.5,
      minLandSize := 0, minSeaSize := 0, maxRetries := 10\<rparr>"


text \<open>A cell matches when it is inside the grid and holds the traced type.\<close>

definition hit :: "int \<Rightarrow> int \<Rightarrow> nat list \<Rightarrow> nat \<Rightarrow> int \<times> int \<Rightarrow> bool" where
  "hit w h t ty c = (in_grid w h (fst c) (snd c) \<and> rd t (fst c + snd c * w) = Some ty)"

text \<open>The Moore neighbour of a cell in the direction \<open>d\<close> (an index of the ring, modulo 8).\<close>

definition dir :: "nat \<Rightarrow> int \<times> int" where
  "dir d = MOORE_NEIGHBOURHOOD ! (d mod 8)"

definition nb :: "int \<times> int \<Rightarrow> nat \<Rightarrow> int \<times> int" where
  "nb c d = (fst c + fst (dir d), snd c + snd (dir d))"

definition cur :: "tracer \<Rightarrow> int \<times> int" where
  "cur s = (t_px s, t_py s)"

definition backtrack :: "tracer \<Rightarrow> int \<times> int" where
  "backtrack s = (t_bx s, t_by s)"

definition cell_index :: "int \<Rightarrow> int \<times> int \<Rightarrow> int" where
  "cell_index w c = fst c + snd c * w"

text \<open>The path ends at the current cell, so that no neighbour repeats its last entry.\<close>

definition path_ok :: "int \<Rightarrow> int \<Rightarrow> tracer \<Rightarrow> bool" where
  "path_ok w h s =
     (in_grid w h (t_px s) (t_py s) \<and> (t_path s = [] \<or> last (t_path s) = cell_index w (cur s)))"

text \<open>
  A state of the walk between two rounds: the current cell matches, and the backtrack cell
  is its neighbour in the direction \<open>k\<close>, one of the four straight ones, and does not match.
\<close>

definition good :: "int \<Rightarrow> int \<Rightarrow> nat list \<Rightarrow> nat \<Rightarrow> nat \<Rightarrow> tracer \<Rightarrow> bool" where
  "good w h t ty k s =
     (odd k \<and> k < 8 \<and> hit w h t ty (cur s) \<and> backtrack s = nb (cur s) k
      \<and> \<not> hit w h t ty (backtrack s))"

text \<open>The direction from the new current cell to the new backtrack cell.\<close>

definition turn :: "nat \<Rightarrow> nat" where
  "turn m = [5, 7, 7, 1, 1, 3, 3, 5] ! (m mod 8)"

text \<open>
  A state reached by a move: behind the backtrack cell, one or two steps against the
  clock, lies the cell the walk came from.
\<close>

definition res :: "int \<Rightarrow> int \<Rightarrow> nat list \<Rightarrow> nat \<Rightarrow> nat \<Rightarrow> tracer \<Rightarrow> bool" where
  "res w h t ty k s =
     (good w h t ty k s
      \<and> (hit w h t ty (nb (cur s) (k + 7)) \<or> hit w h t ty (nb (cur s) (k + 6))))"

text \<open>The part of a state that decides the next move: the two cells.\<close>

definition core :: "tracer \<Rightarrow> (int \<times> int) \<times> (int \<times> int)" where
  "core s = (cur s, backtrack s)"

text \<open>
  Two cell indices of a grid of width \<open>w\<close> are 8-neighbours when their cells differ by
  at most one column and one row, and are not the same cell.
\<close>

definition neighbours8 :: "int \<Rightarrow> int \<Rightarrow> int \<Rightarrow> bool" where
  "neighbours8 w a b = (max \<bar>a mod w - b mod w\<bar> \<bar>a div w - b div w\<bar> = 1)"

text \<open>
  A cell is dry when the fill takes it for land: it is not read as WATER. The cell \<open>b\<close>
  is next to \<open>a\<close> when it is a cell of the grid and an 8-neighbour of \<open>a\<close>.
\<close>

definition dry :: "nat list \<Rightarrow> int \<Rightarrow> bool" where
  "dry t n = (rd t n \<noteq> Some WATER)"

definition adj :: "int \<Rightarrow> int \<Rightarrow> int \<Rightarrow> int \<Rightarrow> bool" where
  "adj w h a b = (0 \<le> b \<and> b < w * h \<and> neighbours8 w a b)"

text \<open>
  A cell is settled when all its dry neighbours in the grid are marked. The marks are in
  order when every marked cell is a dry cell of the grid with a dry neighbour.

  The invariant of one fill that started from the marks \<open>old\<close>: the tiles are the
  marks made since, the stack holds dry cells of the grid that were not marked before,
  every marked cell and every cell of \<open>B\<close> is waiting on the stack or has all its dry
  neighbours marked, every marked cell is a dry cell with a dry neighbour, and every newly
  marked cell is next to a dry cell that was not marked before.
\<close>

definition settled :: "int \<Rightarrow> int \<Rightarrow> nat list \<Rightarrow> int set \<Rightarrow> int \<Rightarrow> bool" where
  "settled w h t seen c = (\<forall>n. adj w h c n \<and> dry t n \<longrightarrow> n \<in> seen)"

definition marked_ok :: "int \<Rightarrow> int \<Rightarrow> nat list \<Rightarrow> int set \<Rightarrow> bool" where
  "marked_ok w h t seen =
     (\<forall>n \<in> seen. 0 \<le> n \<and> n < w * h \<and> dry t n \<and> (\<exists>q. adj w h n q \<and> dry t q))"

definition fill_inv :: "int \<Rightarrow> int \<Rightarrow> nat list \<Rightarrow> int set \<Rightarrow> int set \<Rightarrow> fill_state \<Rightarrow> bool" where
  "fill_inv w h t old B s = (case s of (seen, stack, tiles) \<Rightarrow>
     old \<subseteq> seen \<and> tiles = seen - old
     \<and> (\<forall>i \<in> set stack. 0 \<le> i \<and> i < w * h \<and> dry t i \<and> i \<notin> old)
     \<and> (\<forall>c \<in> seen \<union> B. c \<in> set stack \<or> settled w h t seen c)
     \<and> marked_ok w h t seen
     \<and> (\<forall>n \<in> seen - old. \<exists>q. adj w h n q \<and> dry t q \<and> q \<notin> old))"

text \<open>
  A valid grid has positive dimensions and \<open>width * height\<close> cells, each WATER or LAND.
\<close>

definition valid_grid :: "int \<Rightarrow> int \<Rightarrow> nat list \<Rightarrow> bool" where
  "valid_grid w h t = (0 < w \<and> 0 < h \<and> int (length t) = w * h \<and> set t \<subseteq> {WATER, LAND})"

text \<open>
  The invariant of the scan before the cell of index \<open>k\<close>: the marks are dry cells with a
  dry neighbour, and every marked cell and every dry cell before \<open>k\<close> has all its dry
  neighbours marked.
\<close>

definition scan_inv :: "int \<Rightarrow> int \<Rightarrow> nat list \<Rightarrow> int \<Rightarrow> int set \<Rightarrow> bool" where
  "scan_inv w h t k seen =
     (marked_ok w h t seen \<and> (\<forall>c \<in> seen. settled w h t seen c)
      \<and> (\<forall>c. 0 \<le> c \<and> c < k \<and> dry t c \<longrightarrow> settled w h t seen c))"

text \<open>
  A closed walk from a start cell: a non-empty list of cells in which the first cell is an
  8-neighbour of the start, every next cell an 8-neighbour of the one before, and the last
  cell is the start.
\<close>

definition closed_walk :: "int \<Rightarrow> int \<Rightarrow> int list \<Rightarrow> bool" where
  "closed_walk w start p = (p \<noteq> [] \<and> successively (neighbours8 w) (start # p) \<and> last p = start)"

text \<open>The cells of a scan, in row-major order from the index \<open>k\<close>.\<close>

primrec row_major :: "int \<Rightarrow> int \<Rightarrow> int \<Rightarrow> (int \<times> int) list \<Rightarrow> bool" where
  "row_major w h k [] = True"
| "row_major w h k (c # cs) =
     (in_grid w h (fst c) (snd c) \<and> cell_index w c = k \<and> row_major w h (k + 1) cs)"

text \<open>
  A returned region is traced from a cell of the grid and its path holds LAND cells of the
  grid; when it has a tile, the start is one of its tiles and the path is a closed walk
  from it.
\<close>

definition region_ok :: "int \<Rightarrow> int \<Rightarrow> nat list \<Rightarrow> LandProfile \<Rightarrow> bool" where
  "region_ok w h t r =
     (\<exists>x y. in_grid w h x y \<and> trace x y w h t LAND = Some (land_path r)
        \<and> (\<forall>i \<in> set (land_path r). 0 \<le> i \<and> i < w * h \<and> rd t i = Some LAND)
        \<and> (land_tiles r \<noteq> {}
             \<longrightarrow> x + y * w \<in> land_tiles r \<and> closed_walk w (x + y * w) (land_path r)))"

section \<open>Properties of the random stream\<close>

lemma js_rem_nonneg: "0 \<le> a \<Longrightarrow> js_rem a b = a mod \<bar>b\<bar>"
  by (cases "a = 0") (simp_all add: js_rem_def)

lemma rng_next_state:
  assumes "1 \<le> state rng" "state rng \<le> 2147483646"
  shows "1 \<le> state (snd (rng_next rng)) \<and> state (snd (rng_next rng)) \<le> 2147483646"
proof -
  let ?M = "2147483647 :: int"
  let ?s = "state rng"
  have pos: "0 \<le> ?s * 16807" using assms by simp
  have st: "state (snd (rng_next rng)) = (?s * 16807) mod ?M"
    using js_rem_nonneg [OF pos, of ?M] by (simp add: rng_next_def Let_def)
  have cop: "coprime (2147483647 :: int) 16807"
    unfolding coprime_iff_gcd_eq_1 by code_simp
  have "(?s * 16807) mod ?M \<noteq> 0"
  proof
    assume "(?s * 16807) mod ?M = 0"
    then have "?M dvd ?s * 16807" by presburger
    then have "?M dvd ?s" using cop coprime_dvd_mult_left_iff by blast
    then have "?M \<le> ?s" using assms(1) by (intro zdvd_imp_le) auto
    then show False using assms(2) by simp
  qed
  moreover have "0 \<le> (?s * 16807) mod ?M" "(?s * 16807) mod ?M < ?M" by simp_all
  ultimately show ?thesis using st by linarith
qed

lemma rng_next_unit:
  assumes "1 \<le> state rng" "state rng \<le> 2147483646"
  shows "0 \<le> fst (rng_next rng) \<and> fst (rng_next rng) < 1"
proof -
  have f: "fst (rng_next rng) = real_of_int (state (snd (rng_next rng)) - 1) / 2147483646"
    by (simp add: rng_next_def Let_def)
  from rng_next_state [OF assms] show ?thesis unfolding f by simp
qed

text \<open>
  Claim C1, at the seed 0: \<open>create(0)\<close> has the state 0, outside \<open>[1, 2147483646]\<close>,
  because the correction is added to the seed and not to the state; the first draw from
  that stream leaves the state at 0 and returns a negative number.
\<close>

theorem create_zero_state:
  "state (create 0) = 0 \<and> seed (create 0) = 2147483646
   \<and> state (snd (rng_next (create 0))) = 0 \<and> fst (rng_next (create 0)) < 0"
  by (simp add: create_def rng_next_def js_rem_def Let_def)

section \<open>Region detection on concrete grids\<close>

text \<open>
  Claim C4, on the 2 by 2 grid of WATER cells: the grid has one component of WATER, and
  \<open>detectSeas\<close> returns four regions. The scan starts a fill at every border cell that is
  WATER in the terrain, whether or not an earlier fill has marked it (there is no test of
  \<open>ocean[i]\<close> before the fill, where \<open>detectLands\<close> tests \<open>seen[id]\<close>), so the cells 1, 2
  and 3 each add a region with no tiles.
\<close>

theorem detectSeas_all_water_2x2:
  "fst (detectSeas 2 2 [WATER, WATER, WATER, WATER]) =
     [\<lparr>sea_id = 1, sea_tiles = {0, 1, 2, 3}\<rparr>, \<lparr>sea_id = 2, sea_tiles = {}\<rparr>,
      \<lparr>sea_id = 3, sea_tiles = {}\<rparr>, \<lparr>sea_id = 4, sea_tiles = {}\<rparr>]"
  by code_simp

text \<open>
  Claim C5, on a grid of width 3 and height 1: the cells 1 and 2 are border cells holding
  WATER, and no fill starts from them. The loops of the scan run \<open>y\<close> below the width and
  \<open>x\<close> below the height, so the scan reads the indices 0, 3 and 6 only; no sea is
  found and the two WATER cells are rewritten to LAND.
\<close>

theorem detectSeas_wide_strip:
  "detectSeas 3 1 [LAND, WATER, WATER] = ([], [LAND, LAND, LAND])"
  by code_simp

text \<open>
  Claim C6, on a grid of width 3 and height 5 whose only WATER cells are the interior cells
  7 and 10 (a lake that no border cell reaches): the scan, with \<open>x\<close> running to the height,
  reaches the index 7 at \<open>x = 4, y = 1\<close>, which passes the border test, and fills from
  it. The lake is returned as the sea 1 and both cells stay WATER.
\<close>

theorem detectSeas_tall_lake:
  "detectSeas 3 5 [LAND, LAND, LAND,  LAND, LAND, LAND,  LAND, WATER, LAND,
                   LAND, WATER, LAND,  LAND, LAND, LAND] =
     ([\<lparr>sea_id = 1, sea_tiles = {7, 10}\<rparr>, \<lparr>sea_id = 2, sea_tiles = {}\<rparr>],
      [LAND, LAND, LAND,  LAND, LAND, LAND,  LAND, WATER, LAND,
       LAND, WATER, LAND,  LAND, LAND, LAND])"
  by code_simp

text \<open>
  Claim C3, on the 1 by 1 grid holding LAND: no sea is found, and the only land region has
  no tiles, so the cell 0 is in no tile set of either pass. A fill collects the cells it
  pushes, and the cell it starts from is pushed only when a neighbour reaches it back.
\<close>

theorem single_land_cell_uncollected:
  "detectSeas 1 1 [LAND] = ([], [LAND])
   \<and> detectLands 1 1 [LAND] = Some [\<lparr>land_id = 0, land_tiles = {}, land_path = []\<rparr>]"
  by code_simp

section \<open>The height field is finite and in the unit interval\<close>

lemma grid_size_exceeds: "minSize < grid_size e sz minSize"
  by (induction e sz minSize rule: grid_size.induct) (subst grid_size.simps, simp)

lemma grid_size_shape:
  "sz = 1 \<or> (\<exists>k. sz = 2 ^ k + 1) \<Longrightarrow>
   grid_size e sz minSize = 1 \<or> (\<exists>k. grid_size e sz minSize = 2 ^ k + 1)"
proof (induction e sz minSize rule: grid_size.induct)
  case (1 e sz minSize)
  show ?case
  proof (cases "sz \<le> minSize")
    case True
    have "grid_size (e + 1) (2 ^ e + 1) minSize = 1
          \<or> (\<exists>k. grid_size (e + 1) (2 ^ e + 1) minSize = 2 ^ k + 1)"
      by (rule "1.IH" [OF True]) blast
    then show ?thesis using True by (subst (1 2) grid_size.simps) simp
  next
    case False
    then show ?thesis using "1.prems" by (subst (1 2) grid_size.simps) simp
  qed
qed

lemma cell_index_bounds:
  fixes x y sz :: int
  assumes "0 \<le> x" "x < sz" "0 \<le> y" "y < sz"
  shows "0 \<le> x + y * sz \<and> x + y * sz < sz * sz"
  using in_grid_index [of sz sz x y] assms by (simp add: in_grid_def)

lemma sample_finite:
  assumes "finite_grid sz arr" "0 \<le> x" "x < sz" "0 \<le> y" "y < sz"
  shows "\<exists>r. sample arr (x + y * sz) = Some r"
proof -
  from cell_index_bounds [OF assms(2-5)] assms(1)
  have b: "0 \<le> x + y * sz" "x + y * sz < int (length arr)" by (simp_all add: finite_grid_def)
  then have mem: "arr ! nat (x + y * sz) \<in> set arr" by simp
  have "None \<notin> set arr" using assms(1) by (simp add: finite_grid_def)
  with mem have "arr ! nat (x + y * sz) \<noteq> None" by metis
  then obtain r where "arr ! nat (x + y * sz) = Some r" by blast
  then show ?thesis using b by (simp add: sample_def rd_def)
qed

lemma wr_finite: "finite_grid sz arr \<Longrightarrow> finite_grid sz (wr arr k (Some r))"
  by (auto simp: finite_grid_def wr_def dest!: set_update_subset_insert [THEN subsetD])

lemma fadd_Some [simp]: "fadd (Some a) (Some b) = Some (a + b)"
  by (simp add: fadd_def)

lemma fdiv_Some [simp]: "fdiv (Some a) c = Some (a / c)"
  by (simp add: fdiv_def)

lemma dvd_next_step:
  fixes i a b :: int
  assumes "0 < i" "i dvd a" "i dvd b" "a < b"
  shows "a + i \<le> b"
proof -
  from assms(2,3) have "i dvd b - a" by simp
  then obtain k where k: "b - a = i * k" by (auto simp: dvd_def)
  have "0 < i * k" using assms(4) k by simp
  then have "0 < k" using assms(1) by (simp add: zero_less_mult_iff)
  then have "i * 1 \<le> i * k" using assms(1) by (intro mult_left_mono) simp_all
  then show ?thesis using k by simp
qed

lemma dvd_first_step:
  fixes i a :: int
  assumes "0 < i" "i dvd a" "0 \<le> a" "a \<noteq> 0"
  shows "i \<le> a"
  using dvd_next_step [of i 0 a] assms by simp

lemma wr_grid: "finite_grid sz arr \<Longrightarrow> v \<noteq> None \<Longrightarrow> finite_grid sz (wr arr k v)"
  using wr_finite [of sz arr k] by (cases v) simp_all

lemma fadd_num: "a \<noteq> None \<Longrightarrow> b \<noteq> None \<Longrightarrow> fadd a b \<noteq> None"
  by (cases a; cases b) simp_all

lemma fdiv_num: "a \<noteq> None \<Longrightarrow> fdiv a c \<noteq> None"
  by (cases a) simp_all

lemma if_num: "(c \<Longrightarrow> a \<noteq> None) \<Longrightarrow> (\<not> c \<Longrightarrow> b \<noteq> None) \<Longrightarrow> (if c then a else b) \<noteq> (None :: num)"
  by simp

lemma sample_num:
  "finite_grid sz arr \<Longrightarrow> 0 \<le> x \<Longrightarrow> x < sz \<Longrightarrow> 0 \<le> y \<Longrightarrow> y < sz \<Longrightarrow> sample arr (x + y * sz) \<noteq> None"
  using sample_finite [of sz arr x y] by auto

lemma diamond_cell_finite:
  assumes fin: "finite_grid sz (fst st)"
    and i: "0 < i" "i dvd sz - 1"
    and x: "0 \<le> x" "x < sz - 1" "i dvd x"
    and y: "0 \<le> y" "y < sz - 1" "i dvd y"
  shows "finite_grid sz (fst (diamond_cell sz i r x y st))"
proof -
  obtain arr rng where st: "st = (arr, rng)" by (cases st)
  have fa: "finite_grid sz arr" using fin st by simp
  have x1: "x + i \<le> sz - 1" by (rule dvd_next_step [OF i(1) x(3) i(2) x(2)])
  have y1: "y + i \<le> sz - 1" by (rule dvd_next_step [OF i(1) y(3) i(2) y(2)])
  have "finite_grid sz (wr arr (x + i div 2 + (y + i div 2) * sz)
          (fadd (fdiv (fadd (fadd (fadd (sample arr (x + y * sz)) (sample arr (x + i + y * sz)))
             (sample arr (x + (y + i) * sz))) (sample arr (x + i + (y + i) * sz))) 4)
             (Some (fst (rng_float rng (- r) r)))))"
    using x y x1 y1 i(1)
    by (intro wr_grid fadd_num fdiv_num sample_num fa) simp_all
  then show ?thesis
    by (simp add: st diamond_cell_def Let_def case_prod_beta)
qed

lemma square_cell_finite:
  assumes fin: "finite_grid sz (fst st)"
    and i: "0 < i" "i dvd sz - 1"
    and x: "0 \<le> x" "x < sz - 1" "i dvd x"
    and y: "0 \<le> y" "y < sz - 1" "i dvd y"
  shows "finite_grid sz (fst (square_cell sz i r x y st))"
proof -
  obtain arr rng where st: "st = (arr, rng)" by (cases st)
  have fa: "finite_grid sz arr" using fin st by simp
  define hi where "hi = i div 2"
  have hi: "0 \<le> hi" "hi \<le> i" using i(1) by (simp_all add: hi_def)
  have x1: "x + i \<le> sz - 1" by (rule dvd_next_step [OF i(1) x(3) i(2) x(2)])
  have y1: "y + i \<le> sz - 1" by (rule dvd_next_step [OF i(1) y(3) i(2) y(2)])
  have up: "i \<le> y" if "y \<noteq> 0" using dvd_first_step [OF i(1) y(3) y(1) that] .
  have left: "i \<le> x" if "x \<noteq> 0" using dvd_first_step [OF i(1) x(3) x(1) that] .
  have right: "x + i + i \<le> sz - 1" if "x + i \<noteq> sz - 1"
  proof -
    have dv: "i dvd x + i" using x(3) by simp
    have "x + i < sz - 1" using x1 that by simp
    then show ?thesis using dvd_next_step [OF i(1) dv i(2)] by simp
  qed
  have down: "y + i + i \<le> sz - 1" if "y + i \<noteq> sz - 1"
  proof -
    have dv: "i dvd y + i" using y(3) by simp
    have "y + i < sz - 1" using y1 that by simp
    then show ?thesis using dvd_next_step [OF i(1) dv i(2)] by simp
  qed
  note bounds = x y x1 y1 hi
  have d0: "(if y = 0
             then fdiv (fadd (fadd (sample arr (x + y * sz)) (sample arr (x + hi + (y + hi) * sz)))
                    (sample arr (x + i + y * sz))) 3
             else fdiv (fadd (fadd (fadd (sample arr (x + y * sz)) (sample arr (x + hi + (y + hi) * sz)))
                    (sample arr (x + i + y * sz))) (sample arr (x + hi + (y - hi) * sz))) 4) \<noteq> None"
    using bounds up by (intro if_num fdiv_num fadd_num sample_num fa) simp_all
  have d1: "(if x = 0
             then fdiv (fadd (fadd (sample arr (x + y * sz)) (sample arr (x + hi + (y + hi) * sz)))
                    (sample arr (x + (y + i) * sz))) 3
             else fdiv (fadd (fadd (fadd (sample arr (x + y * sz)) (sample arr (x + hi + (y + hi) * sz)))
                    (sample arr (x + (y + i) * sz))) (sample arr (x - hi + (y + hi) * sz))) 4) \<noteq> None"
    using bounds left by (intro if_num fdiv_num fadd_num sample_num fa) simp_all
  have d2: "(if x + i = sz - 1
             then fdiv (fadd (fadd (sample arr (x + i + y * sz)) (sample arr (x + hi + (y + hi) * sz)))
                    (sample arr (x + i + (y + i) * sz))) 3
             else fdiv (fadd (fadd (fadd (sample arr (x + i + y * sz)) (sample arr (x + hi + (y + hi) * sz)))
                    (sample arr (x + i + (y + i) * sz))) (sample arr (x + i + hi + (y + hi) * sz))) 4) \<noteq> None"
    using bounds right by (intro if_num fdiv_num fadd_num sample_num fa) simp_all
  have d3: "(if y + i = sz - 1
             then fdiv (fadd (fadd (sample arr (x + hi + (y + hi) * sz)) (sample arr (x + (y + i) * sz)))
                    (sample arr (x + i + (y + i) * sz))) 3
             else fdiv (fadd (fadd (fadd (sample arr (x + hi + (y + hi) * sz)) (sample arr (x + (y + i) * sz)))
                    (sample arr (x + i + (y + i) * sz))) (sample arr (x + hi + (y + i + hi) * sz))) 4) \<noteq> None"
    using bounds down by (intro if_num fdiv_num fadd_num sample_num fa) simp_all
  show ?thesis
    unfolding st square_cell_def Let_def case_prod_beta fst_conv hi_def [symmetric]
    by (intro wr_grid fadd_num fa d0 d1 d2 d3) simp_all
qed

lemma sweep_x_invariant:
  "(\<And>x st. 0 \<le> x \<Longrightarrow> x < sz - 1 \<Longrightarrow> i dvd x \<Longrightarrow> Q st \<Longrightarrow> Q (body x y st)) \<Longrightarrow>
   0 \<le> x \<Longrightarrow> i dvd x \<Longrightarrow> Q st \<Longrightarrow> Q (sweep_x body sz i y x st)"
proof (induction body sz i y x st rule: sweep_x.induct)
  case (1 body sz i y x st)
  show ?case
  proof (cases "x < sz - 1 \<and> 0 < i")
    case True
    have "Q (body x y st)" using "1.prems" True by (intro "1.prems"(1)) simp_all
    then have "Q (sweep_x body sz i y (x + i) (body x y st))"
      using "1.prems" True by (intro "1.IH") simp_all
    then show ?thesis using True by (subst sweep_x.simps) simp
  next
    case False
    then show ?thesis using "1.prems" by (subst sweep_x.simps) auto
  qed
qed

lemma sweep_y_invariant:
  "(\<And>x y st. 0 \<le> x \<Longrightarrow> x < sz - 1 \<Longrightarrow> i dvd x \<Longrightarrow> 0 \<le> y \<Longrightarrow> y < sz - 1 \<Longrightarrow> i dvd y \<Longrightarrow>
      Q st \<Longrightarrow> Q (body x y st)) \<Longrightarrow>
   0 \<le> y \<Longrightarrow> i dvd y \<Longrightarrow> Q st \<Longrightarrow> Q (sweep_y body sz i y st)"
proof (induction body sz i y st rule: sweep_y.induct)
  case (1 body sz i y st)
  show ?case
  proof (cases "y < sz - 1 \<and> 0 < i")
    case True
    have "Q (sweep_x body sz i y 0 st)"
      using "1.prems" True by (intro sweep_x_invariant [where Q = Q] "1.prems"(1)) simp_all
    then have "Q (sweep_y body sz i (y + i) (sweep_x body sz i y 0 st))"
      using "1.prems" True by (intro "1.IH") simp_all
    then show ?thesis using True by (subst sweep_y.simps) simp
  next
    case False
    then show ?thesis using "1.prems" by (subst sweep_y.simps) auto
  qed
qed

lemma rounds_finite:
  "finite_grid sz (fst st) \<Longrightarrow> i dvd sz - 1 \<Longrightarrow> i \<le> 1 \<or> (\<exists>k. i = 2 ^ k) \<Longrightarrow>
   finite_grid sz (fst (rounds sz roughness jitter i st))"
proof (induction sz roughness jitter i st rule: rounds.induct)
  case (1 sz roughness jitter i st)
  show ?case
  proof (cases "i > 1")
    case True
    let ?r = "amplitude sz roughness jitter i"
    let ?st1 = "sweep_y (diamond_cell sz i ?r) sz i 0 st"
    let ?st2 = "sweep_y (square_cell sz i ?r) sz i 0 ?st1"
    have pos: "0 < i" using True by simp
    have f1: "finite_grid sz (fst ?st1)"
      using "1.prems"(1,2) pos
      by (intro sweep_y_invariant [where Q = "\<lambda>st. finite_grid sz (fst st)"] diamond_cell_finite)
         simp_all
    have f2: "finite_grid sz (fst ?st2)"
      by (rule sweep_y_invariant [where Q = "\<lambda>st. finite_grid sz (fst st)"])
         (simp_all add: square_cell_finite pos "1.prems"(2) f1)
    obtain k where k: "i = 2 ^ k" using "1.prems"(3) True by auto
    have "k \<noteq> 0" using True k by (cases k) simp_all
    then obtain j where j: "k = Suc j" by (cases k) simp_all
    have half: "i div 2 = 2 ^ j" using k j by simp
    have "i div 2 dvd i" using k j by simp
    then have dv: "i div 2 dvd sz - 1" using "1.prems"(2) by (rule dvd_trans)
    have "finite_grid sz (fst (rounds sz roughness jitter (i div 2) ?st2))"
      using True f2 dv half by (intro "1.IH") auto
    then show ?thesis using True by (subst rounds.simps) simp
  next
    case False
    then show ?thesis using "1.prems" by (subst rounds.simps) simp
  qed
qed

lemma seed_corners_finite:
  assumes "finite_grid sz (fst st)"
  shows "finite_grid sz (fst (seed_corners sz None st))"
proof -
  obtain arr rng where st: "st = (arr, rng)" by (cases st)
  show ?thesis using assms
    by (simp add: st seed_corners_def Let_def case_prod_beta wr_finite)
qed

lemma new_array_finite: "0 \<le> sz \<Longrightarrow> \<exists>arr. new_array (sz * sz) = Inr arr \<and> finite_grid sz arr"
  by (simp add: new_array_def finite_grid_def)

lemma clamp_unit: "v \<noteq> None \<Longrightarrow> unit_value (clamp v)"
  by (cases v) (simp_all add: clamp_def unit_value_def)

lemma clamp_grid:
  assumes "finite_grid sz arr"
  shows "int (length (map clamp arr)) = sz * sz \<and> list_all unit_value (map clamp arr)"
proof -
  have "unit_value (clamp v)" if "v \<in> set arr" for v
  proof -
    have "v \<noteq> None" using that assms unfolding finite_grid_def by metis
    then show ?thesis by (rule clamp_unit)
  qed
  then show ?thesis using assms by (simp add: finite_grid_def list_all_iff)
qed

lemma subarray_row:
  assumes "0 \<le> b" "0 \<le> n" "b + n \<le> int (length xs)"
  shows "subarray xs b (b + n) = take (nat n) (drop (nat b) xs)"
  using assms by (simp add: subarray_def rel_index_def Let_def min_def)

lemma crop_rows_field:
  assumes arr: "int (length arr) = sz * sz" "list_all unit_value arr"
    and dims: "0 \<le> w" "w < sz" "h < sz"
  shows "set ys \<subseteq> {0..<h} \<Longrightarrow> int (length slice) = w * h \<Longrightarrow> list_all unit_value slice \<Longrightarrow>
         \<exists>field. crop_rows sz w arr ys slice = Inr field \<and> int (length field) = w * h
                  \<and> list_all unit_value field"
proof (induction ys arbitrary: slice)
  case Nil
  then show ?case by simp
next
  case (Cons y ys)
  have y: "0 \<le> y" "y < h" using Cons.prems(1) by simp_all
  have "(y + 1) * sz \<le> sz * sz" using y dims by (intro mult_right_mono) simp_all
  then have fits: "y * sz + w \<le> int (length arr)" using arr(1) dims by (simp add: algebra_simps)
  have "0 \<le> y * sz" using y dims by simp
  then have row: "subarray arr (y * sz) (y * sz + w) = take (nat w) (drop (nat (y * sz)) arr)"
    using subarray_row [of "y * sz" w arr] dims fits by simp
  let ?row = "take (nat w) (drop (nat (y * sz)) arr)"
  have lrow: "int (length ?row) = w" using fits dims \<open>0 \<le> y * sz\<close> by simp
  have "(y + 1) * w \<le> h * w" using y dims by (intro mult_right_mono) simp_all
  then have room: "y * w + w \<le> int (length slice)" using Cons.prems(2) by (simp add: algebra_simps)
  have "0 \<le> y * w" using y dims by simp
  let ?slice = "take (nat (y * w)) slice @ ?row @ drop (nat (y * w) + length ?row) slice"
  have set: "typed_set slice ?row (y * w) = Inr ?slice"
    using room lrow \<open>0 \<le> y * w\<close> by (simp add: typed_set_def)
  have len: "int (length ?slice) = w * h"
    using room lrow \<open>0 \<le> y * w\<close> Cons.prems(2) dims by (simp add: nat_add_distrib)
  have "set ?row \<subseteq> set arr" by (meson set_drop_subset set_take_subset subset_trans)
  then have unit: "list_all unit_value ?slice"
    using arr(2) Cons.prems(3)
    by (auto simp: list_all_iff dest: in_set_takeD in_set_dropD)
  have "\<exists>field. crop_rows sz w arr ys ?slice = Inr field \<and> int (length field) = w * h
                  \<and> list_all unit_value field"
    using Cons.prems(1) len unit by (intro Cons.IH) simp_all
  then show ?case by (simp add: Let_def row set)
qed

lemma diamondSquare_field:
  fixes w h :: nat
  shows "\<exists>field. diamondSquare (int w) (int h) roughness jitter seed0 None = Inr field
           \<and> length field = w * h \<and> list_all unit_value field"
proof -
  let ?m = "max (int w) (int h)"
  define sz where "sz = grid_size 1 1 ?m"
  have big: "?m < sz" unfolding sz_def by (rule grid_size_exceeds)
  then have szpos: "0 < sz" by simp
  have "sz = 1 \<or> (\<exists>k. sz = 2 ^ k + 1)" unfolding sz_def by (rule grid_size_shape) simp
  then have pow: "sz - 1 \<le> 1 \<or> (\<exists>k. sz - 1 = 2 ^ k)" by auto
  obtain arr0 where arr0: "new_array (sz * sz) = Inr arr0" "finite_grid sz arr0"
    using new_array_finite [of sz] szpos by auto
  define st1 where "st1 = seed_corners sz None (arr0, create seed0)"
  define st2 where "st2 = rounds sz roughness jitter (sz - 1) st1"
  define arr3 where "arr3 = map clamp (fst st2)"
  have "finite_grid sz (fst st1)" unfolding st1_def using arr0(2) by (intro seed_corners_finite) simp
  then have "finite_grid sz (fst st2)" unfolding st2_def using pow by (intro rounds_finite) simp_all
  then have arr3: "int (length arr3) = sz * sz" "list_all unit_value arr3"
    unfolding arr3_def using clamp_grid by blast+
  have "int w * int h = int (w * h)" by simp
  then have slice: "new_array (int w * int h) = Inr (replicate (w * h) (Some 0))"
    unfolding new_array_def by (simp del: of_nat_mult)
  have "\<exists>field. crop_rows sz (int w) arr3 [0..int h - 1] (replicate (w * h) (Some 0)) = Inr field
          \<and> int (length field) = int w * int h \<and> list_all unit_value field"
    using arr3 big
    by (intro crop_rows_field) (auto simp: list_all_iff unit_value_def)
  then obtain field where field:
    "crop_rows sz (int w) arr3 [0..int h - 1] (replicate (w * h) (Some 0)) = Inr field"
    "int (length field) = int w * int h" "list_all unit_value field" by blast
  have "length field = w * h" using field(2) by (metis of_nat_eq_iff of_nat_mult)
  moreover have "diamondSquare (int w) (int h) roughness jitter seed0 None = Inr field"
    unfolding diamondSquare_def Let_def case_prod_beta sz_def [symmetric] arr0(1) sum.case
      st1_def [symmetric] st2_def [symmetric] arr3_def [symmetric] slice
    using big field(1) by (simp add: arr3_def st2_def)
  ultimately show ?thesis using field(3) by blast
qed


section \<open>The orchestrator\<close>

lemma generateUnsafe_land_percent:
  assumes "generateUnsafe s P = Some (Inr r)"
  shows "\<not> num_less (calculateLandPercent
             (createFromHeightMap (int (width P)) (int (height P)) (heights r) (seaLevel P)))
           (minPercentLand P)
       \<and> \<not> num_greater (calculateLandPercent
             (createFromHeightMap (int (width P)) (int (height P)) (heights r) (seaLevel P)))
           (maxPercentLand P)"
  using assms
  by (auto simp: generateUnsafe_def build_terrain_def Let_def
      split: sum.splits option.splits if_splits)

lemma generate_loop_success:
  "generate_loop k i rng s P = Some (tries, Inr r) \<Longrightarrow> \<exists>s'. generateUnsafe s' P = Some (Inr r)"
proof (induction k arbitrary: i rng s tries)
  case 0
  then show ?case by simp
next
  case (Suc k)
  show ?case
  proof (cases "generateUnsafe s P")
    case None
    then show ?thesis using Suc.prems by simp
  next
    case (Some out)
    show ?thesis
    proof (cases out)
      case (Inr r')
      then show ?thesis using Suc.prems Some by auto
    next
      case (Inl e)
      show ?thesis
      proof (cases e)
        case (TerrainGenerationError v)
        then show ?thesis
          using Suc.prems Some Inl Suc.IH
          by (auto simp: Let_def split: option.splits prod.splits)
      qed (use Suc.prems Some Inl in auto)
    qed
  qed
qed

lemma generate_loop_exhausts:
  assumes "\<And>s. \<exists>v. generateUnsafe s P = Some (Inl (TerrainGenerationError v))"
  shows "\<exists>tries. generate_loop k i rng s P = Some (tries, Inl (Error (maxRetries P)))
           \<and> map fst tries = [i..<i + k]"
proof (induction k arbitrary: i rng s)
  case 0
  show ?case by simp
next
  case (Suc k)
  obtain v where v: "generateUnsafe s P = Some (Inl (TerrainGenerationError v))"
    using assms by blast
  let ?d = "rng_int rng 0 MAX_SAFE_INTEGER"
  obtain tries where t: "generate_loop k (i + 1) (snd ?d) (fst ?d) P
      = Some (tries, Inl (Error (maxRetries P)))" "map fst tries = [i + 1..<i + 1 + k]"
    using Suc.IH by blast
  have "generate_loop (Suc k) i rng s P = Some ((i, s) # tries, Inl (Error (maxRetries P)))"
    using t(1) by (simp add: v Let_def)
  moreover have "map fst ((i, s) # tries) = [i..<i + Suc k]"
    using t(2) by (simp add: upt_rec [of i])
  ultimately show ?case by blast
qed


lemma createFromHeightMap_1x1:
  "createFromHeightMap 1 1 hm sl = [if above (rd hm 0) sl then LAND else WATER]"
  by (simp add: createFromHeightMap_def scan_def wr_def)

lemma unit_not_above_1:
  assumes "list_all unit_value hm"
  shows "\<not> above (rd hm 0) 1"
proof (cases "rd hm 0")
  case None
  then show ?thesis by (simp add: above_def)
next
  case (Some v)
  then have "v \<in> set hm" by (auto simp: rd_def split: if_splits)
  then have "unit_value v" using assms by (simp add: list_all_iff)
  then show ?thesis using Some by (auto simp: above_def unit_value_def split: option.splits)
qed

lemma smooth_1x1_water: "smooth 1 1 [WATER] 4 100 = [WATER]"
  by code_simp


lemma detectSeas_1x1_water: "detectSeas 1 1 [WATER] = ([\<lparr>sea_id = 1, sea_tiles = {}\<rparr>], [LAND])"
  by code_simp


lemma detectLands_1x1_land:
  "detectLands 1 1 [LAND] = Some [\<lparr>land_id = 0, land_tiles = {}, land_path = []\<rparr>]"
  by code_simp

lemma build_terrain_lake:
  assumes "list_all unit_value hm"
  shows "build_terrain lake_params hm mm =
           Some (Inr \<lparr>res_width = 1, res_height = 1, heights = hm, moisture = mm,
                      types = [LAND], seas = [\<lparr>sea_id = 1, sea_tiles = {}\<rparr>],
                      lands = [\<lparr>land_id = 0, land_tiles = {}, land_path = []\<rparr>]\<rparr>)"
proof -
  have t: "createFromHeightMap 1 1 hm 1 = [WATER]"
    using unit_not_above_1 [OF assms] by (simp add: createFromHeightMap_1x1)
  have lp: "calculateLandPercent [WATER] = Some 0" by (simp add: calculateLandPercent_def)
  show ?thesis
    unfolding build_terrain_def lake_params_def WORLD_GENERATION_DEFAULTS_def
    using t lp smooth_1x1_water detectSeas_1x1_water detectLands_1x1_land
    by (simp add: Let_def num_less_def num_greater_def sea_fits_def land_fits_def)
qed

lemma generateUnsafe_lake:
  "\<exists>hm mm. generateUnsafe s lake_params =
     Some (Inr \<lparr>res_width = 1, res_height = 1, heights = hm, moisture = mm,
                types = [LAND], seas = [\<lparr>sea_id = 1, sea_tiles = {}\<rparr>],
                lands = [\<lparr>land_id = 0, land_tiles = {}, land_path = []\<rparr>]\<rparr>)"
proof -
  let ?d1 = "rng_int (create s) 0 MAX_SAFE_INTEGER"
  let ?d2 = "rng_int (snd ?d1) 0 MAX_SAFE_INTEGER"
  obtain hm where hm: "diamondSquare (int 1) (int 1) (9 / 10) 0 (fst ?d1) None = Inr hm"
    "list_all unit_value hm"
    using diamondSquare_field [of 1 1 "9 / 10" 0 "fst ?d1"] by blast
  obtain mm where mm: "diamondSquare (int 1) (int 1) 2 0 (fst ?d2) None = Inr mm"
    using diamondSquare_field [of 1 1 2 0 "fst ?d2"] by blast
  have "generateUnsafe s lake_params = build_terrain lake_params hm mm"
    using hm(1) mm
    by (simp add: generateUnsafe_def Let_def lake_params_def WORLD_GENERATION_DEFAULTS_def)
  then show ?thesis using build_terrain_lake [OF hm(2)] by auto
qed

lemma generate_lake:
  "\<exists>hm mm. generate 42 lake_params =
     Some ([(0, 42)],
           Inr \<lparr>res_width = 1, res_height = 1, heights = hm, moisture = mm,
                types = [LAND], seas = [\<lparr>sea_id = 1, sea_tiles = {}\<rparr>],
                lands = [\<lparr>land_id = 0, land_tiles = {}, land_path = []\<rparr>]\<rparr>)"
proof -
  obtain hm mm where u: "generateUnsafe 42 lake_params =
     Some (Inr \<lparr>res_width = 1, res_height = 1, heights = hm, moisture = mm,
                types = [LAND], seas = [\<lparr>sea_id = 1, sea_tiles = {}\<rparr>],
                lands = [\<lparr>land_id = 0, land_tiles = {}, land_path = []\<rparr>]\<rparr>)"
    using generateUnsafe_lake [of 42] by blast
  have retries: "maxRetries lake_params = Suc 9"
    by (simp add: lake_params_def WORLD_GENERATION_DEFAULTS_def)
  show ?thesis unfolding generate_def retries generate_loop.simps u by simp
qed

text \<open>
  Claim C2 fails on a 1 by 1 grid with sea level 1 and at most 50% land: the classified
  grid is all WATER (0% land, inside the bounds), the attempt succeeds, and the terrain of
  the result is all LAND (100% land, above the upper bound).
\<close>

theorem final_land_percent_unchecked:
  "(case generate 42 lake_params of
      Some (tries, Inr r) \<Rightarrow>
        tries = [(0, 42)] \<and> types r = [LAND] \<and> calculateLandPercent (types r) = Some 1
        \<and> maxPercentLand lake_params < 1
    | _ \<Rightarrow> False)"
proof -
  obtain hm mm where g: "generate 42 lake_params =
     Some ([(0, 42)],
           Inr \<lparr>res_width = 1, res_height = 1, heights = hm, moisture = mm,
                types = [LAND], seas = [\<lparr>sea_id = 1, sea_tiles = {}\<rparr>],
                lands = [\<lparr>land_id = 0, land_tiles = {}, land_path = []\<rparr>]\<rparr>)"
    using generate_lake by blast
  show ?thesis
    unfolding g by (simp add: calculateLandPercent_def lake_params_def WORLD_GENERATION_DEFAULTS_def)
qed

lemma classify_cells_length:
  "length (classify_cells w hm sl cs terrain) = length terrain"
  by (induction w hm sl cs terrain rule: classify_cells.induct)
     (simp_all add: Let_def wr_def)

lemma createFromHeightMap_length:
  "length (createFromHeightMap w h hm sl) = nat (w * h)"
  by (simp add: createFromHeightMap_def classify_cells_length)

text \<open>
  Claim C2 as amended: whenever \<open>generate\<close> returns a result for a grid with at least one
  cell, the fraction of LAND cells of the grid classified from the returned height field at
  the sea level (the grid that the land-percent checks read, before smoothing and sea
  detection) lies within \<open>[minPercentLand, maxPercentLand]\<close>.
\<close>

theorem classified_land_percent_checked:
  assumes "generate seed0 P = Some (tries, Inr r)" and "0 < width P" and "0 < height P"
  shows "\<exists>p. calculateLandPercent
               (createFromHeightMap (int (width P)) (int (height P)) (heights r) (seaLevel P))
             = Some p
           \<and> minPercentLand P \<le> p \<and> p \<le> maxPercentLand P"
proof -
  let ?t = "createFromHeightMap (int (width P)) (int (height P)) (heights r) (seaLevel P)"
  obtain s where "generateUnsafe s P = Some (Inr r)"
    using assms(1) generate_loop_success unfolding generate_def by blast
  then have c: "\<not> num_less (calculateLandPercent ?t) (minPercentLand P)"
    "\<not> num_greater (calculateLandPercent ?t) (maxPercentLand P)"
    using generateUnsafe_land_percent by blast+
  have "0 < width P * height P" using assms(2,3) by simp
  then have "length ?t \<noteq> 0"
    by (simp add: createFromHeightMap_length nat_mult_distrib zero_less_mult_iff
        del: of_nat_mult)
  then obtain p where p: "calculateLandPercent ?t = Some p"
    by (simp add: calculateLandPercent_def)
  show ?thesis using c p by (auto simp: num_less_def num_greater_def)
qed

theorem classified_land_percent_checked_witness:
  "\<exists>tries r p. generate 42 lake_params = Some (tries, Inr r)
     \<and> 0 < width lake_params \<and> 0 < height lake_params
     \<and> calculateLandPercent
          (createFromHeightMap (int (width lake_params)) (int (height lake_params)) (heights r)
             (seaLevel lake_params)) = Some p
     \<and> minPercentLand lake_params \<le> p \<and> p \<le> maxPercentLand lake_params"
proof -
  obtain tries r where g: "generate 42 lake_params = Some (tries, Inr r)"
    using generate_lake by blast
  have d: "0 < width lake_params" "0 < height lake_params"
    by (simp_all add: lake_params_def WORLD_GENERATION_DEFAULTS_def)
  from classified_land_percent_checked [OF g d] g d show ?thesis by blast
qed




section \<open>The contour tracer\<close>

lemma dir_values:
  "dir 0 = (-1, -1)" "dir 1 = (0, -1)" "dir 2 = (1, -1)" "dir 3 = (1, 0)"
  "dir 4 = (1, 1)" "dir 5 = (0, 1)" "dir 6 = (-1, 1)" "dir 7 = (-1, 0)"
  "dir (Suc 0) = (0, -1)"
  by (simp_all add: dir_def MOORE_NEIGHBOURHOOD_def)

lemma dir_mod [simp]: "dir (d mod 8) = dir d"
  by (simp add: dir_def)

lemma nb_mod [simp]: "nb c (d mod 8) = nb c d"
  by (simp add: nb_def)

lemma below_8_cases:
  fixes m :: nat
  assumes "m < 8"
  obtains "m = 0" | "m = 1" | "m = 2" | "m = 3" | "m = 4" | "m = 5" | "m = 6" | "m = 7"
  using assms by linarith

lemma in_grid_index_inj:
  assumes "in_grid w h x y" "in_grid w h x' y'" "x + y * w = x' + y' * w"
  shows "x = x' \<and> y = y'"
proof -
  from assms(1,2) have b: "0 \<le> x" "x < w" "0 \<le> x'" "x' < w" by (simp_all add: in_grid_def)
  have "(x + y * w) mod w = x" "(x' + y' * w) mod w = x'" using b by simp_all
  then have "x = x'" using assms(3) by metis
  moreover have "(x + y * w) div w = y" "(x' + y' * w) div w = y'" using b by simp_all
  then have "y = y'" using assms(3) by metis
  ultimately show ?thesis by simp
qed

lemma nb_neq: "nb c d \<noteq> c"
proof -
  have "d mod 8 < 8" by simp
  then have "dir (d mod 8) \<noteq> (0, 0)"
    by (elim below_8_cases) (simp_all add: dir_values)
  then show ?thesis by (cases c) (auto simp: nb_def prod_eq_iff)
qed

text \<open>The scan from the index \<open>i\<close>, one neighbour at a time.\<close>

lemma trace_scan_hit:
  "trace_scan w h t ty k i s =
     (if i < 8 then
        (if hit w h t ty (nb (cur s) (i + k))
         then (if t_path s \<noteq> [] \<and> cell_index w (nb (cur s) (i + k)) = last (t_path s)
               then trace_scan w h t ty k (i + 1)
                      (s\<lparr>t_px := fst (nb (cur s) (i + k)), t_py := snd (nb (cur s) (i + k))\<rparr>)
               else s\<lparr>t_px := fst (nb (cur s) (i + k)), t_py := snd (nb (cur s) (i + k)),
                       t_path := t_path s @ [cell_index w (nb (cur s) (i + k))]\<rparr>)
         else trace_scan w h t ty k (i + 1)
                (s\<lparr>t_bx := fst (nb (cur s) (i + k)), t_by := snd (nb (cur s) (i + k))\<rparr>))
      else s)"
  by (subst trace_scan.simps) (simp add: hit_def nb_def cur_def dir_def cell_index_def Let_def)

lemma trace_scan_unfold:
  assumes "path_ok w h s" "i < 8"
  shows "trace_scan w h t ty k i s =
           (if hit w h t ty (nb (cur s) (i + k))
            then s\<lparr>t_px := fst (nb (cur s) (i + k)), t_py := snd (nb (cur s) (i + k)),
                    t_path := t_path s @ [cell_index w (nb (cur s) (i + k))]\<rparr>
            else trace_scan w h t ty k (i + 1)
                   (s\<lparr>t_bx := fst (nb (cur s) (i + k)), t_by := snd (nb (cur s) (i + k))\<rparr>))"
proof (cases "hit w h t ty (nb (cur s) (i + k))")
  case False
  then show ?thesis using assms(2) by (subst trace_scan_hit) simp
next
  case True
  let ?c = "nb (cur s) (i + k)"
  have "cell_index w ?c \<noteq> cell_index w (cur s)"
  proof
    assume e: "cell_index w ?c = cell_index w (cur s)"
    have "in_grid w h (fst ?c) (snd ?c)" using True by (simp add: hit_def)
    moreover have "in_grid w h (fst (cur s)) (snd (cur s))"
      using assms(1) by (simp add: path_ok_def cur_def)
    ultimately have "?c = cur s"
      using in_grid_index_inj e by (auto simp: cell_index_def prod_eq_iff)
    then show False using nb_neq by blast
  qed
  then have "\<not> (t_path s \<noteq> [] \<and> cell_index w ?c = last (t_path s))"
    using assms(1) by (auto simp: path_ok_def)
  then show ?thesis using True assms(2) by (subst trace_scan_hit) auto
qed

lemma path_ok_backtrack [simp]: "path_ok w h (s\<lparr>t_bx := a, t_by := b\<rparr>) = path_ok w h s"
  by (simp add: path_ok_def cur_def)

lemma cur_backtrack [simp]: "cur (s\<lparr>t_bx := a, t_by := b\<rparr>) = cur s"
  by (simp add: cur_def)

lemma trace_scan_first:
  assumes "path_ok w h s" "j < 8" "hit w h t ty (nb (cur s) (j + k))"
  shows "i \<le> j \<Longrightarrow> (\<forall>j'. i \<le> j' \<and> j' < j \<longrightarrow> \<not> hit w h t ty (nb (cur s) (j' + k))) \<Longrightarrow>
         cur s' = cur s \<Longrightarrow> t_path s' = t_path s \<Longrightarrow>
         trace_scan w h t ty k i s' =
           s'\<lparr>t_bx := (if j = i then t_bx s' else fst (nb (cur s) (j - 1 + k))),
               t_by := (if j = i then t_by s' else snd (nb (cur s) (j - 1 + k))),
               t_px := fst (nb (cur s) (j + k)), t_py := snd (nb (cur s) (j + k)),
               t_path := t_path s @ [cell_index w (nb (cur s) (j + k))]\<rparr>"
proof (induction "j - i" arbitrary: i s')
  case 0
  then have ij: "i = j" by simp
  have ok: "path_ok w h s'" using assms(1) 0(4,5) by (simp add: path_ok_def cur_def)
  show ?case using assms(2,3) 0(4,5) ij by (subst trace_scan_unfold [OF ok]) simp_all
next
  case (Suc n)
  then have lt: "i < j" by simp
  have ok: "path_ok w h s'" using assms(1) Suc(5,6) by (simp add: path_ok_def cur_def)
  have miss: "\<not> hit w h t ty (nb (cur s') (i + k))" using Suc(4) lt Suc(5) by simp
  let ?s = "s'\<lparr>t_bx := fst (nb (cur s') (i + k)), t_by := snd (nb (cur s') (i + k))\<rparr>"
  have step: "trace_scan w h t ty k i s' = trace_scan w h t ty k (i + 1) ?s"
    using lt assms(2) miss by (subst trace_scan_unfold [OF ok]) simp_all
  have rec: "trace_scan w h t ty k (i + 1) ?s =
           ?s\<lparr>t_bx := (if j = i + 1 then t_bx ?s else fst (nb (cur s) (j - 1 + k))),
               t_by := (if j = i + 1 then t_by ?s else snd (nb (cur s) (j - 1 + k))),
               t_px := fst (nb (cur s) (j + k)), t_py := snd (nb (cur s) (j + k)),
               t_path := t_path s @ [cell_index w (nb (cur s) (j + k))]\<rparr>"
    using Suc(2) lt Suc(4) Suc(5,6) by (intro Suc(1)) simp_all
  have "j = i + 1 \<Longrightarrow> j - 1 = i" by simp
  then show ?case unfolding step rec using lt Suc(5) by auto
qed

lemma trace_scan_miss:
  assumes "path_ok w h s"
  shows "i < 8 \<Longrightarrow> (\<forall>j. i \<le> j \<and> j < 8 \<longrightarrow> \<not> hit w h t ty (nb (cur s) (j + k))) \<Longrightarrow>
         cur s' = cur s \<Longrightarrow> t_path s' = t_path s \<Longrightarrow>
         trace_scan w h t ty k i s' =
           s'\<lparr>t_bx := fst (nb (cur s) (7 + k)), t_by := snd (nb (cur s) (7 + k))\<rparr>"
proof (induction "7 - i" arbitrary: i s')
  case 0
  then have i: "i = 7" by simp
  have ok: "path_ok w h s'" using assms 0(4,5) by (simp add: path_ok_def cur_def)
  have "trace_scan w h t ty k 8 s'' = s''" for s''
    by (subst trace_scan_hit) simp
  then show ?case using 0(3,4) i by (subst trace_scan_unfold [OF ok]) simp_all
next
  case (Suc n)
  then have lt: "i < 7" by simp
  have ok: "path_ok w h s'" using assms Suc(5,6) by (simp add: path_ok_def cur_def)
  let ?s = "s'\<lparr>t_bx := fst (nb (cur s') (i + k)), t_by := snd (nb (cur s') (i + k))\<rparr>"
  have step: "trace_scan w h t ty k i s' = trace_scan w h t ty k (i + 1) ?s"
    using lt Suc(4,5) by (subst trace_scan_unfold [OF ok]) simp_all
  have rec: "trace_scan w h t ty k (i + 1) ?s =
           ?s\<lparr>t_bx := fst (nb (cur s) (7 + k)), t_by := snd (nb (cur s) (7 + k))\<rparr>"
    using Suc(2) lt Suc(4) Suc(5,6) by (intro Suc(1)) simp_all
  show ?case unfolding step rec by simp
qed

lemma odd_below_8_cases:
  fixes k :: nat
  assumes "odd k" "k < 8"
  obtains "k = 1" | "k = 3" | "k = 5" | "k = 7"
  using assms by (elim below_8_cases) simp_all

lemma good_offset:
  assumes "good w h t ty k s"
  shows "start_offset s = k"
proof -
  from assms have k: "odd k" "k < 8" and b: "backtrack s = nb (cur s) k" by (simp_all add: good_def)
  from k show ?thesis
    by (elim odd_below_8_cases)
       (use b in \<open>simp_all add: start_offset_def backtrack_def cur_def nb_def dir_values\<close>)
qed

lemma good_path_ok: "good w h t ty k s \<Longrightarrow> t_path s = [] \<or> last (t_path s) = cell_index w (cur s) \<Longrightarrow> path_ok w h s"
  by (simp add: good_def hit_def path_ok_def cur_def)

lemma trace_round_stay:
  assumes g: "good w h t ty k s" and ok: "path_ok w h s"
    and none: "\<forall>d. \<not> hit w h t ty (nb (cur s) d)"
  shows "trace_round w h t ty s =
           s\<lparr>t_bx := fst (nb (cur s) (7 + k)), t_by := snd (nb (cur s) (7 + k))\<rparr>"
proof -
  let ?s = "s\<lparr>t_bx := t_px s, t_by := t_py s\<rparr>"
  have "trace_scan w h t ty k 0 ?s =
          ?s\<lparr>t_bx := fst (nb (cur s) (7 + k)), t_by := snd (nb (cur s) (7 + k))\<rparr>"
    using none by (intro trace_scan_miss [OF ok]) simp_all
  then show ?thesis by (simp add: trace_round_def good_offset [OF g])
qed

lemma trace_round_move:
  assumes g: "good w h t ty k s" and ok: "path_ok w h s"
    and some: "hit w h t ty (nb (cur s) d)"
  obtains j where "1 \<le> j" "j < 8" "hit w h t ty (nb (cur s) (j + k))"
    "\<forall>j' < j. \<not> hit w h t ty (nb (cur s) (j' + k))"
    "trace_round w h t ty s =
       s\<lparr>t_bx := fst (nb (cur s) (j - 1 + k)), t_by := snd (nb (cur s) (j - 1 + k)),
         t_px := fst (nb (cur s) (j + k)), t_py := snd (nb (cur s) (j + k)),
         t_path := t_path s @ [cell_index w (nb (cur s) (j + k))]\<rparr>"
proof -
  define P where "P j = hit w h t ty (nb (cur s) (j + k))" for j
  define j0 where "j0 = (d + 8 - k) mod 8"
  have k8: "k < 8" using g by (simp add: good_def)
  have "(j0 + k) mod 8 = (d + 8 - k + k) mod 8" unfolding j0_def by (simp add: mod_add_left_eq)
  also have "\<dots> = d mod 8" using k8 by simp
  finally have "(j0 + k) mod 8 = d mod 8" .
  then have "nb (cur s) (j0 + k) = nb (cur s) d" by (metis nb_mod)
  then have "P j0" using some by (simp add: P_def)
  define j where "j = (LEAST j. P j)"
  have Pj: "P j" unfolding j_def using \<open>P j0\<close> by (rule LeastI)
  have least: "\<not> P j'" if "j' < j" for j' using that not_less_Least unfolding j_def by blast
  have "j \<le> j0" unfolding j_def using \<open>P j0\<close> by (rule Least_le)
  moreover have "j0 < 8" unfolding j0_def by simp
  ultimately have j8: "j < 8" by simp
  have "\<not> P 0" using g by (auto simp: P_def good_def)
  then have j1: "1 \<le> j" using Pj by (cases j) auto
  let ?s = "s\<lparr>t_bx := t_px s, t_by := t_py s\<rparr>"
  have "trace_scan w h t ty k 0 ?s =
          ?s\<lparr>t_bx := (if j = 0 then t_bx ?s else fst (nb (cur s) (j - 1 + k))),
               t_by := (if j = 0 then t_by ?s else snd (nb (cur s) (j - 1 + k))),
               t_px := fst (nb (cur s) (j + k)), t_py := snd (nb (cur s) (j + k)),
               t_path := t_path s @ [cell_index w (nb (cur s) (j + k))]\<rparr>"
    using Pj least j8 by (intro trace_scan_first [OF ok]) (simp_all add: P_def)
  then have "trace_round w h t ty s =
       s\<lparr>t_bx := fst (nb (cur s) (j - 1 + k)), t_by := snd (nb (cur s) (j - 1 + k)),
         t_px := fst (nb (cur s) (j + k)), t_py := snd (nb (cur s) (j + k)),
         t_path := t_path s @ [cell_index w (nb (cur s) (j + k))]\<rparr>"
    using j1 by (simp add: trace_round_def good_offset [OF g])
  then show thesis using that j1 j8 Pj least by (simp add: P_def)
qed

lemma nb_add8 [simp]: "nb c (d + 8) = nb c d"
  by (simp add: nb_def dir_def)

lemma nb_values:
  "nb (x, y) 0 = (x - 1, y - 1)" "nb (x, y) 1 = (x, y - 1)" "nb (x, y) 2 = (x + 1, y - 1)"
  "nb (x, y) 3 = (x + 1, y)" "nb (x, y) 4 = (x + 1, y + 1)" "nb (x, y) 5 = (x, y + 1)"
  "nb (x, y) 6 = (x - 1, y + 1)" "nb (x, y) 7 = (x - 1, y)"
  "nb (x, y) 8 = (x - 1, y - 1)" "nb (x, y) 9 = (x, y - 1)" "nb (x, y) 10 = (x + 1, y - 1)"
  "nb (x, y) 11 = (x + 1, y)" "nb (x, y) 12 = (x + 1, y + 1)" "nb (x, y) 13 = (x, y + 1)"
  "nb (x, y) 14 = (x - 1, y + 1)" "nb (x, y) (Suc 0) = (x, y - 1)"
  by (simp_all add: nb_def dir_def MOORE_NEIGHBOURHOOD_def)

lemma turn_values:
  "turn 0 = 5" "turn 1 = 7" "turn 2 = 7" "turn 3 = 1" "turn 4 = 1" "turn 5 = 3" "turn 6 = 3"
  "turn 7 = 5" "turn (Suc 0) = 7"
  by (simp_all add: turn_def)

lemma turn_odd: "m < 8 \<Longrightarrow> odd (turn m) \<and> turn m < 8"
  by (elim below_8_cases) (simp_all add: turn_values)

lemma nb_turn: "m < 8 \<Longrightarrow> nb c (m + 7) = nb (nb c m) (turn m)"
  by (cases c, elim below_8_cases) (simp_all add: turn_values nb_values)

lemma nb_opposite: "m < 8 \<Longrightarrow> nb (nb c m) (m + 4) = c"
  by (cases c, elim below_8_cases) (simp_all add: nb_values)

lemma nb_behind:
  "m < 8 \<Longrightarrow> nb (nb c m) (turn m + (if even m then 7 else 6)) = c"
  by (cases c, elim below_8_cases) (simp_all add: turn_values nb_values)

text \<open>One round from a good state that has a matching neighbour.\<close>

lemma round_shape:
  assumes g: "good w h t ty k s" and ok: "path_ok w h s"
    and some: "hit w h t ty (nb (cur s) d)"
  obtains j m where "1 \<le> j" "j < 8" "m < 8" "m = (j + k) mod 8"
    "\<forall>j' < j. \<not> hit w h t ty (nb (cur s) (j' + k))"
    "cur (trace_round w h t ty s) = nb (cur s) m"
    "backtrack (trace_round w h t ty s) = nb (cur s) (m + 7)"
    "hit w h t ty (nb (cur s) m)"
    "\<not> hit w h t ty (nb (cur s) (m + 7))"
    "odd m \<longrightarrow> \<not> hit w h t ty (nb (cur s) (m + 6))"
    "t_path (trace_round w h t ty s) = t_path s @ [cell_index w (nb (cur s) m)]"
proof -
  obtain j where j: "1 \<le> j" "j < 8" "hit w h t ty (nb (cur s) (j + k))"
    "\<forall>j' < j. \<not> hit w h t ty (nb (cur s) (j' + k))"
    and r: "trace_round w h t ty s =
       s\<lparr>t_bx := fst (nb (cur s) (j - 1 + k)), t_by := snd (nb (cur s) (j - 1 + k)),
         t_px := fst (nb (cur s) (j + k)), t_py := snd (nb (cur s) (j + k)),
         t_path := t_path s @ [cell_index w (nb (cur s) (j + k))]\<rparr>"
    using trace_round_move [OF g ok some] by metis
  define m where "m = (j + k) mod 8"
  have m8: "m < 8" by (simp add: m_def)
  have nbm: "nb c m = nb c (j + k)" for c unfolding m_def by simp
  have "(m + 7) mod 8 = (j + k + 7) mod 8" unfolding m_def by (simp add: mod_add_left_eq)
  also have "j + k + 7 = (j - 1 + k) + 8" using j(1) by simp
  finally have "(m + 7) mod 8 = (j - 1 + k) mod 8" by simp
  then have nbm7: "nb c (m + 7) = nb c (j - 1 + k)" for c by (metis nb_mod)
  have c: "cur (trace_round w h t ty s) = nb (cur s) m"
    by (simp add: r cur_def nbm)
  have b: "backtrack (trace_round w h t ty s) = nb (cur s) (m + 7)"
    by (simp add: r backtrack_def nbm7)
  have "j - 1 < j" using j(1) by simp
  then have "\<not> hit w h t ty (nb (cur s) (j - 1 + k))" using j(4) by blast
  then have miss7: "\<not> hit w h t ty (nb (cur s) (m + 7))" unfolding nbm7 .
  have miss6: "\<not> hit w h t ty (nb (cur s) (m + 6))" if "odd m"
  proof -
    have "odd k" using g by (simp add: good_def)
    have "even ((j + k) mod 8) = even (j + k)" by (rule dvd_mod_iff) simp
    then have "odd (j + k)" using that unfolding m_def by simp
    then have "even j" using \<open>odd k\<close> by simp
    then have "j \<noteq> 1" by auto
    then have j2: "2 \<le> j" using j(1) by simp
    have "(m + 6) mod 8 = (j + k + 6) mod 8" unfolding m_def by (simp add: mod_add_left_eq)
    also have "j + k + 6 = (j - 2 + k) + 8" using j2 by simp
    finally have "(m + 6) mod 8 = (j - 2 + k) mod 8" by simp
    then have e: "nb (cur s) (m + 6) = nb (cur s) (j - 2 + k)" by (metis nb_mod)
    have "j - 2 < j" using j2 by simp
    then have "\<not> hit w h t ty (nb (cur s) (j - 2 + k))" using j(4) by blast
    then show ?thesis unfolding e .
  qed
  show thesis
    using that [of j m] j m8 c b miss7 miss6 by (simp add: nbm r m_def)
qed

lemma round_res:
  assumes g: "good w h t ty k s" and ok: "path_ok w h s"
    and some: "hit w h t ty (nb (cur s) d)"
  shows "\<exists>k'. res w h t ty k' (trace_round w h t ty s)"
    and "path_ok w h (trace_round w h t ty s)"
proof -
  let ?s = "trace_round w h t ty s"
  obtain j m where m: "m < 8"
    and c: "cur ?s = nb (cur s) m"
    and b: "backtrack ?s = nb (cur s) (m + 7)"
    and hm: "hit w h t ty (nb (cur s) m)"
    and miss: "\<not> hit w h t ty (nb (cur s) (m + 7))"
    and p: "t_path ?s = t_path s @ [cell_index w (nb (cur s) m)]"
    using round_shape [OF g ok some] by metis
  have hs: "hit w h t ty (cur s)" using g by (simp add: good_def)
  have g': "good w h t ty (turn m) ?s"
    using turn_odd [OF m] hm miss nb_turn [OF m, of "cur s"]
    by (simp add: good_def c b)
  have behind: "nb (cur ?s) (turn m + (if even m then 7 else 6)) = cur s"
    using nb_behind [OF m, of "cur s"] by (simp add: c)
  have "res w h t ty (turn m) ?s"
  proof (cases "even m")
    case True
    then show ?thesis using g' behind hs by (simp add: res_def)
  next
    case False
    then show ?thesis using g' behind hs by (simp add: res_def)
  qed
  then show "\<exists>k'. res w h t ty k' ?s" by blast
  have "in_grid w h (t_px ?s) (t_py ?s)"
    using hm c by (simp add: hit_def cur_def prod_eq_iff)
  then show "path_ok w h ?s" by (simp add: path_ok_def p c)
qed

lemma nb_same_dir:
  assumes "a < 8" "b < 8" "nb c a = nb c b"
  shows "a = b"
proof -
  obtain x y where c: "c = (x, y)" by (cases c)
  show ?thesis
    using assms(1)
  proof (cases rule: below_8_cases)
    case 1 with assms(2,3) show ?thesis unfolding c by (elim below_8_cases) (simp_all add: nb_values)
  next
    case 2 with assms(2,3) show ?thesis unfolding c by (elim below_8_cases) (simp_all add: nb_values)
  next
    case 3 with assms(2,3) show ?thesis unfolding c by (elim below_8_cases) (simp_all add: nb_values)
  next
    case 4 with assms(2,3) show ?thesis unfolding c by (elim below_8_cases) (simp_all add: nb_values)
  next
    case 5 with assms(2,3) show ?thesis unfolding c by (elim below_8_cases) (simp_all add: nb_values)
  next
    case 6 with assms(2,3) show ?thesis unfolding c by (elim below_8_cases) (simp_all add: nb_values)
  next
    case 7 with assms(2,3) show ?thesis unfolding c by (elim below_8_cases) (simp_all add: nb_values)
  next
    case 8 with assms(2,3) show ?thesis unfolding c by (elim below_8_cases) (simp_all add: nb_values)
  qed
qed

lemma turn_same:
  assumes "a < 8" "b < 8" "turn a = turn b"
  shows "a = b \<or> (odd a \<and> b = (a + 1) mod 8) \<or> (odd b \<and> a = (b + 1) mod 8)"
  using assms(1)
proof (cases rule: below_8_cases)
  case 1 with assms(2,3) show ?thesis by (elim below_8_cases) (simp_all add: turn_values)
next
  case 2 with assms(2,3) show ?thesis by (elim below_8_cases) (simp_all add: turn_values)
next
  case 3 with assms(2,3) show ?thesis by (elim below_8_cases) (simp_all add: turn_values)
next
  case 4 with assms(2,3) show ?thesis by (elim below_8_cases) (simp_all add: turn_values)
next
  case 5 with assms(2,3) show ?thesis by (elim below_8_cases) (simp_all add: turn_values)
next
  case 6 with assms(2,3) show ?thesis by (elim below_8_cases) (simp_all add: turn_values)
next
  case 7 with assms(2,3) show ?thesis by (elim below_8_cases) (simp_all add: turn_values)
next
  case 8 with assms(2,3) show ?thesis by (elim below_8_cases) (simp_all add: turn_values)
qed

lemma nb_same_move: "nb c1 m = nb c2 m \<Longrightarrow> c1 = c2"
  by (simp add: nb_def prod_eq_iff)

lemma nb_diagonal:
  assumes "odd a" "a < 8" "nb c1 a = nb c2 ((a + 1) mod 8)"
  shows "c2 = nb c1 (a + 6)"
proof -
  obtain x1 y1 where c1: "c1 = (x1, y1)" by (cases c1)
  obtain x2 y2 where c2: "c2 = (x2, y2)" by (cases c2)
  show ?thesis using assms unfolding c1 c2
    by (elim odd_below_8_cases) (simp_all add: nb_values numeral_2_eq_2 [symmetric])
qed

text \<open>Two good states that move to the same state stand on the same cell.\<close>

lemma round_same_cell:
  assumes g1: "good w h t ty k1 s1" and ok1: "path_ok w h s1"
    and some1: "hit w h t ty (nb (cur s1) d1)"
    and g2: "good w h t ty k2 s2" and ok2: "path_ok w h s2"
    and some2: "hit w h t ty (nb (cur s2) d2)"
    and same: "cur (trace_round w h t ty s1) = cur (trace_round w h t ty s2)"
      "backtrack (trace_round w h t ty s1) = backtrack (trace_round w h t ty s2)"
  shows "cur s1 = cur s2"
proof -
  let ?p = "cur (trace_round w h t ty s1)"
  obtain j1 m1 where m1: "m1 < 8"
    and c1: "?p = nb (cur s1) m1"
    and b1: "backtrack (trace_round w h t ty s1) = nb (cur s1) (m1 + 7)"
    and o1: "odd m1 \<longrightarrow> \<not> hit w h t ty (nb (cur s1) (m1 + 6))"
    using round_shape [OF g1 ok1 some1] by metis
  obtain j2 m2 where m2: "m2 < 8"
    and c2: "cur (trace_round w h t ty s2) = nb (cur s2) m2"
    and b2: "backtrack (trace_round w h t ty s2) = nb (cur s2) (m2 + 7)"
    and o2: "odd m2 \<longrightarrow> \<not> hit w h t ty (nb (cur s2) (m2 + 6))"
    using round_shape [OF g2 ok2 some2] by metis
  have h1: "hit w h t ty (cur s1)" using g1 by (simp add: good_def)
  have h2: "hit w h t ty (cur s2)" using g2 by (simp add: good_def)
  have e: "nb (cur s1) m1 = nb (cur s2) m2" using same(1) c1 c2 by simp
  have "nb ?p (turn m1) = nb (cur s1) (m1 + 7)"
    using nb_turn [OF m1, of "cur s1"] c1 by simp
  moreover have "nb ?p (turn m2) = nb (cur s2) (m2 + 7)"
    using nb_turn [OF m2, of "cur s2"] c2 same(1) by simp
  ultimately have "nb ?p (turn m1) = nb ?p (turn m2)" using same(2) b1 b2 by simp
  then have "turn m1 = turn m2"
    using turn_odd [OF m1] turn_odd [OF m2] by (intro nb_same_dir [of _ _ ?p]) simp_all
  then consider "m1 = m2" | "odd m1" "m2 = (m1 + 1) mod 8" | "odd m2" "m1 = (m2 + 1) mod 8"
    using turn_same [OF m1 m2] by blast
  then show ?thesis
  proof cases
    case 1
    then show ?thesis using e nb_same_move by blast
  next
    case 2
    then have "cur s2 = nb (cur s1) (m1 + 6)" using nb_diagonal [OF 2(1) m1] e by simp
    then show ?thesis using o1 2(1) h2 by simp
  next
    case 3
    then have "cur s1 = nb (cur s2) (m2 + 6)" using nb_diagonal [OF 3(1) m2] e by simp
    then show ?thesis using o2 3(1) h1 by simp
  qed
qed

text \<open>
  Two states that were reached by a move, stand on the same cell and move to the same cell
  have the same backtrack cell.
\<close>

lemma round_same_dir_aux:
  assumes k: "odd k1" "k1 < 8" "odd k2" "k2 < 8"
    and j: "1 \<le> j1" "j1 < 8" "1 \<le> j2" "j2 < 8" "j2 < j1"
    and m: "(j1 + k1) mod 8 = (j2 + k2) mod 8"
    and miss: "\<forall>j' < j1. \<not> P (nb c (j' + k1))"
    and behind: "P (nb c (k2 + 7)) \<or> P (nb c (k2 + 6))"
  shows False
proof -
  have ge: "j2 + k2 \<le> j1 + k1"
  proof (rule ccontr)
    assume "\<not> j2 + k2 \<le> j1 + k1"
    then have lt: "j1 + k1 \<le> j2 + k2" by simp
    obtain q where q: "j2 + k2 = j1 + k1 + 8 * q" using mod_eq_nat2E [OF m lt] by blast
    with \<open>\<not> j2 + k2 \<le> j1 + k1\<close> have "q \<noteq> 0" by auto
    then have "1 \<le> q" by simp
    then have "j1 + k1 + 8 \<le> j2 + k2" using q by simp
    then show False using j k by simp
  qed
  obtain q where q: "j1 + k1 = j2 + k2 + 8 * q" using mod_eq_nat1E [OF m ge] by blast
  have "q \<le> 1" using q j k by simp
  have "even (j1 + k1) = even (j2 + k2 + 8 * q)" using q by simp
  then have "even j1 = even j2" using k by simp
  then have "j1 \<noteq> j2 + 1" by auto
  then have d2: "j2 + 2 \<le> j1" using j by simp
  have e7: "nb c (j1 - j2 - 1 + k1) = nb c (k2 + 7)"
  proof (cases "q = 0")
    case True
    then have "k2 + 7 = (j1 - j2 - 1 + k1) + 8" using q d2 by simp
    then show ?thesis by (metis nb_add8)
  next
    case False
    then have "q = 1" using \<open>q \<le> 1\<close> by simp
    then have "k2 + 7 = j1 - j2 - 1 + k1" using q d2 by simp
    then show ?thesis by simp
  qed
  have e6: "nb c (j1 - j2 - 2 + k1) = nb c (k2 + 6)"
  proof (cases "q = 0")
    case True
    then have "k2 + 6 = (j1 - j2 - 2 + k1) + 8" using q d2 by simp
    then show ?thesis by (metis nb_add8)
  next
    case False
    then have "q = 1" using \<open>q \<le> 1\<close> by simp
    then have "k2 + 6 = j1 - j2 - 2 + k1" using q d2 by simp
    then show ?thesis by simp
  qed
  have "j1 - j2 - 1 < j1" "j1 - j2 - 2 < j1" using j by simp_all
  then have "\<not> P (nb c (j1 - j2 - 1 + k1))" "\<not> P (nb c (j1 - j2 - 2 + k1))"
    using miss by blast+
  then show False using behind unfolding e7 e6 by blast
qed

lemma res_some: "res w h t ty k s \<Longrightarrow> \<exists>d. hit w h t ty (nb (cur s) d)"
  by (auto simp: res_def)

lemma round_same_dir:
  assumes r1: "res w h t ty k1 s1" and ok1: "path_ok w h s1"
    and r2: "res w h t ty k2 s2" and ok2: "path_ok w h s2"
    and cell: "cur s1 = cur s2"
    and same: "cur (trace_round w h t ty s1) = cur (trace_round w h t ty s2)"
  shows "k1 = k2"
proof -
  have g1: "good w h t ty k1 s1" and g2: "good w h t ty k2 s2"
    using r1 r2 by (simp_all add: res_def)
  have k: "odd k1" "k1 < 8" "odd k2" "k2 < 8" using g1 g2 by (simp_all add: good_def)
  obtain d1 where d1: "hit w h t ty (nb (cur s1) d1)" using res_some [OF r1] by blast
  obtain d2 where d2: "hit w h t ty (nb (cur s2) d2)" using res_some [OF r2] by blast
  obtain j1 m1 where j1: "1 \<le> j1" "j1 < 8" "m1 < 8" "m1 = (j1 + k1) mod 8"
    and miss1: "\<forall>j' < j1. \<not> hit w h t ty (nb (cur s1) (j' + k1))"
    and c1: "cur (trace_round w h t ty s1) = nb (cur s1) m1"
    using round_shape [OF g1 ok1 d1] by metis
  obtain j2 m2 where j2: "1 \<le> j2" "j2 < 8" "m2 < 8" "m2 = (j2 + k2) mod 8"
    and miss2: "\<forall>j' < j2. \<not> hit w h t ty (nb (cur s2) (j' + k2))"
    and c2: "cur (trace_round w h t ty s2) = nb (cur s2) m2"
    using round_shape [OF g2 ok2 d2] by metis
  have "nb (cur s1) m1 = nb (cur s1) m2" using same c1 c2 cell by simp
  then have "m1 = m2" using j1(3) j2(3) by (rule nb_same_dir [rotated 2])
  then have m: "(j1 + k1) mod 8 = (j2 + k2) mod 8" using j1(4) j2(4) by simp
  have b1: "hit w h t ty (nb (cur s1) (k1 + 7)) \<or> hit w h t ty (nb (cur s1) (k1 + 6))"
    using r1 by (simp add: res_def)
  have b2: "hit w h t ty (nb (cur s1) (k2 + 7)) \<or> hit w h t ty (nb (cur s1) (k2 + 6))"
    using r2 cell by (simp add: res_def)
  consider "j2 < j1" | "j1 < j2" | "j1 = j2" by linarith
  then show ?thesis
  proof cases
    case 1
    then show ?thesis
      using round_same_dir_aux [OF k j1(1,2) j2(1,2) 1 m miss1 b2] by blast
  next
    case 2
    have miss2': "\<forall>j' < j2. \<not> hit w h t ty (nb (cur s1) (j' + k2))" using miss2 cell by simp
    show ?thesis
      using round_same_dir_aux [OF k(3,4) k(1,2) j2(1,2) j1(1,2) 2 m [symmetric] miss2' b1]
      by blast
  next
    case 3
    show ?thesis
    proof (cases "k1 \<le> k2")
      case True
      then have le: "j1 + k1 \<le> j2 + k2" using 3 by simp
      obtain q where "j2 + k2 = j1 + k1 + 8 * q" using mod_eq_nat2E [OF m le] by blast
      then show ?thesis using 3 k by simp
    next
      case False
      then have le: "j2 + k2 \<le> j1 + k1" using 3 by simp
      obtain q where "j1 + k1 = j2 + k2 + 8 * q" using mod_eq_nat1E [OF m le] by blast
      then show ?thesis using 3 k by simp
    qed
  qed
qed

lemma round_injective:
  assumes r1: "res w h t ty k1 s1" and ok1: "path_ok w h s1"
    and r2: "res w h t ty k2 s2" and ok2: "path_ok w h s2"
    and same: "core (trace_round w h t ty s1) = core (trace_round w h t ty s2)"
  shows "core s1 = core s2"
proof -
  have g1: "good w h t ty k1 s1" and g2: "good w h t ty k2 s2"
    using r1 r2 by (simp_all add: res_def)
  obtain d1 where d1: "hit w h t ty (nb (cur s1) d1)" using res_some [OF r1] by blast
  obtain d2 where d2: "hit w h t ty (nb (cur s2) d2)" using res_some [OF r2] by blast
  have c: "cur (trace_round w h t ty s1) = cur (trace_round w h t ty s2)"
    and b: "backtrack (trace_round w h t ty s1) = backtrack (trace_round w h t ty s2)"
    using same by (simp_all add: core_def)
  have cell: "cur s1 = cur s2" by (rule round_same_cell [OF g1 ok1 d1 g2 ok2 d2 c b])
  have "k1 = k2" by (rule round_same_dir [OF r1 ok1 r2 ok2 cell c])
  then show ?thesis using g1 g2 cell by (simp add: core_def good_def)
qed

text \<open>The loop of \<open>trace\<close> ends as soon as a round leads back to the start.\<close>

lemma trace_loop_unroll:
  "trace_loop w h t ty sx sy s =
     (if cur (trace_round w h t ty s) = (sx, sy) then Some (t_path (trace_round w h t ty s))
      else trace_loop w h t ty sx sy (trace_round w h t ty s))"
  by (subst trace_loop.simps) (simp add: Let_def cur_def)

lemma trace_loop_exit:
  "cur ((trace_round w h t ty ^^ Suc n) s) = (sx, sy) \<Longrightarrow>
   \<exists>m \<le> n. cur ((trace_round w h t ty ^^ Suc m) s) = (sx, sy)
     \<and> trace_loop w h t ty sx sy s = Some (t_path ((trace_round w h t ty ^^ Suc m) s))"
proof (induction n arbitrary: s)
  case 0
  then show ?case by (subst trace_loop_unroll) simp
next
  case (Suc n)
  let ?f = "trace_round w h t ty"
  show ?case
  proof (cases "cur (?f s) = (sx, sy)")
    case True
    then have "trace_loop w h t ty sx sy s = Some (t_path ((?f ^^ Suc 0) s))"
      by (subst trace_loop_unroll) simp
    then show ?thesis using True by (intro exI [of _ 0]) simp
  next
    case False
    have "cur ((?f ^^ Suc n) (?f s)) = (sx, sy)"
      using Suc.prems by (simp add: funpow_swap1)
    then obtain m where m: "m \<le> n" "cur ((?f ^^ Suc m) (?f s)) = (sx, sy)"
      "trace_loop w h t ty sx sy (?f s) = Some (t_path ((?f ^^ Suc m) (?f s)))"
      using Suc.IH by blast
    have "trace_loop w h t ty sx sy s = trace_loop w h t ty sx sy (?f s)"
      using False by (subst trace_loop_unroll) simp
    then show ?thesis using m by (intro exI [of _ "Suc m"]) (simp add: funpow_swap1)
  qed
qed

lemma orbit_res:
  assumes g: "good w h t ty k0 s0" and ok: "path_ok w h s0"
    and some: "hit w h t ty (nb (cur s0) d)"
  shows "\<exists>k. res w h t ty k ((trace_round w h t ty ^^ Suc n) s0)
           \<and> path_ok w h ((trace_round w h t ty ^^ Suc n) s0)"
proof (induction n)
  case 0
  show ?case using round_res [OF g ok some] by simp
next
  case (Suc n)
  let ?s = "(trace_round w h t ty ^^ Suc n) s0"
  obtain k where k: "res w h t ty k ?s" "path_ok w h ?s" using Suc by blast
  obtain d' where d': "hit w h t ty (nb (cur ?s) d')" using res_some [OF k(1)] by blast
  have g': "good w h t ty k ?s" using k(1) by (simp add: res_def)
  show ?case using round_res [OF g' k(2) d'] by simp
qed

lemma finite_cores:
  "finite {c :: (int \<times> int) \<times> (int \<times> int).
            in_grid w h (fst (fst c)) (snd (fst c)) \<and> (\<exists>k. snd c = nb (fst c) k)}"
proof -
  have "nb c k \<in> {-1..w} \<times> {-1..h}" if "in_grid w h (fst c) (snd c)" for c k
  proof -
    obtain x y where c: "c = (x, y)" by (cases c)
    have "k mod 8 < 8" by simp
    then have "nb (x, y) (k mod 8) \<in> {-1..w} \<times> {-1..h}"
      using that unfolding c by (elim below_8_cases) (simp_all add: nb_values in_grid_def)
    then show ?thesis by (simp add: c)
  qed
  note near = this
  have "{c :: (int \<times> int) \<times> (int \<times> int).
            in_grid w h (fst (fst c)) (snd (fst c)) \<and> (\<exists>k. snd c = nb (fst c) k)}
        \<subseteq> ({0..<w} \<times> {0..<h}) \<times> ({-1..w} \<times> {-1..h})"
  proof
    fix c :: "(int \<times> int) \<times> (int \<times> int)"
    assume "c \<in> {c. in_grid w h (fst (fst c)) (snd (fst c)) \<and> (\<exists>k. snd c = nb (fst c) k)}"
    then obtain k where g: "in_grid w h (fst (fst c)) (snd (fst c))" and k: "snd c = nb (fst c) k"
      by blast
    have "fst c \<in> {0..<w} \<times> {0..<h}" using g by (cases "fst c") (simp add: in_grid_def)
    moreover have "snd c \<in> {-1..w} \<times> {-1..h}" using near [OF g] k by simp
    ultimately show "c \<in> ({0..<w} \<times> {0..<h}) \<times> ({-1..w} \<times> {-1..h})"
      by (cases c) simp
  qed
  then show ?thesis by (rule finite_subset) simp
qed

lemma repeats_in_finite:
  fixes g :: "nat \<Rightarrow> 'a"
  assumes "finite F" "\<And>n. g n \<in> F"
  shows "\<exists>a b. a < b \<and> g a = g b"
proof -
  have "\<not> inj g"
  proof
    assume "inj g"
    then have "infinite (range g)" by (rule range_inj_infinite)
    moreover have "range g \<subseteq> F" using assms(2) by blast
    ultimately show False using assms(1) finite_subset by blast
  qed
  then obtain a b where ab: "a \<noteq> b" "g a = g b" by (auto simp: inj_def)
  show ?thesis
  proof (cases "a < b")
    case True
    then show ?thesis using ab(2) by blast
  next
    case False
    then have "b < a" using ab(1) by simp
    then show ?thesis using ab(2) [symmetric] by blast
  qed
qed

lemma orbit_returns:
  assumes g: "good w h t ty k0 s0" and ok: "path_ok w h s0"
    and some: "hit w h t ty (nb (cur s0) d)"
  shows "\<exists>n. cur ((trace_round w h t ty ^^ Suc n) s0) = cur s0"
proof -
  let ?f = "trace_round w h t ty"
  let ?S = "\<lambda>n. (?f ^^ n) s0"
  have res: "\<exists>k. res w h t ty k (?S (Suc n)) \<and> path_ok w h (?S (Suc n))" for n
    by (rule orbit_res [OF g ok some])
  have inF: "core (?S (Suc n)) \<in> {c. in_grid w h (fst (fst c)) (snd (fst c))
                                      \<and> (\<exists>k. snd c = nb (fst c) k)}" for n
  proof -
    obtain k where "res w h t ty k (?S (Suc n))" using res by blast
    then show ?thesis by (auto simp: res_def good_def core_def hit_def)
  qed
  obtain a b where ab: "a < b" "core (?S (Suc a)) = core (?S (Suc b))"
    using repeats_in_finite [OF finite_cores, of "\<lambda>n. core (?S (Suc n))" w h] inF by blast
  have descend: "a < b \<Longrightarrow> core (?S (Suc a)) = core (?S (Suc b)) \<Longrightarrow>
        \<exists>n. cur (?S (Suc n)) = cur s0" for a b
  proof (induction a arbitrary: b)
    case 0
    then obtain b' where b': "b = Suc b'" by (cases b) simp_all
    obtain k where k: "res w h t ty k (?S (Suc b'))" "path_ok w h (?S (Suc b'))"
      using res by blast
    obtain d' where d': "hit w h t ty (nb (cur (?S (Suc b'))) d')" using res_some [OF k(1)] by blast
    have gk: "good w h t ty k (?S (Suc b'))" using k(1) by (simp add: res_def)
    have e: "core (?f s0) = core (?f (?S (Suc b')))" using 0(2) b' by simp
    have "cur s0 = cur (?S (Suc b'))"
      using e by (intro round_same_cell [OF g ok some gk k(2) d']) (simp_all add: core_def)
    then show ?case by metis
  next
    case (Suc a)
    then obtain b' where b': "b = Suc b'" "a < b'" by (cases b) simp_all
    obtain k1 where k1: "res w h t ty k1 (?S (Suc a))" "path_ok w h (?S (Suc a))"
      using res by blast
    obtain k2 where k2: "res w h t ty k2 (?S (Suc b'))" "path_ok w h (?S (Suc b'))"
      using res by blast
    have e: "core (?f (?S (Suc a))) = core (?f (?S (Suc b')))" using Suc.prems(2) b' by simp
    have "core (?S (Suc a)) = core (?S (Suc b'))"
      by (rule round_injective [OF k1 k2 e])
    then show ?case using Suc.IH b'(2) by blast
  qed
  show ?thesis using descend [OF ab] .
qed

lemma cell_index_coords:
  assumes "in_grid w h (fst c) (snd c)"
  shows "cell_index w c mod w = fst c" "cell_index w c div w = snd c"
  using assms by (simp_all add: cell_index_def in_grid_def)

lemma move_neighbours8:
  assumes "in_grid w h (fst c) (snd c)" "in_grid w h (fst (nb c m)) (snd (nb c m))"
  shows "neighbours8 w (cell_index w c) (cell_index w (nb c m))"
proof -
  obtain x y where c: "c = (x, y)" by (cases c)
  have "m mod 8 < 8" by simp
  then have "max \<bar>fst c - fst (nb c (m mod 8))\<bar> \<bar>snd c - snd (nb c (m mod 8))\<bar> = 1"
    unfolding c by (elim below_8_cases) (simp_all add: nb_values)
  then show ?thesis
    using cell_index_coords [OF assms(1)] cell_index_coords [OF assms(2)]
    by (simp add: neighbours8_def)
qed

lemma hit_cell:
  assumes "hit w h t ty c"
  shows "0 \<le> cell_index w c \<and> cell_index w c < w * h \<and> rd t (cell_index w c) = Some ty"
  using assms in_grid_index [of w h "fst c" "snd c"] by (simp add: hit_def cell_index_def)

lemma successively_snoc:
  "successively P (x # p) \<Longrightarrow> p \<noteq> [] \<Longrightarrow> P (last p) n \<Longrightarrow> successively P (x # p @ [n])"
proof -
  assume a: "successively P (x # p)" "p \<noteq> []" "P (last p) n"
  have "successively P ((x # p) @ [n])"
    unfolding successively_append_iff using a by simp
  then show ?thesis by simp
qed

lemma orbit_walk:
  assumes g: "good w h t ty k0 s0" and ok: "path_ok w h s0" and empty: "t_path s0 = []"
    and some: "hit w h t ty (nb (cur s0) d)"
  shows "successively (neighbours8 w)
           (cell_index w (cur s0) # t_path ((trace_round w h t ty ^^ Suc n) s0))
         \<and> t_path ((trace_round w h t ty ^^ Suc n) s0) \<noteq> []
         \<and> last (t_path ((trace_round w h t ty ^^ Suc n) s0))
             = cell_index w (cur ((trace_round w h t ty ^^ Suc n) s0))
         \<and> (\<forall>i \<in> set (t_path ((trace_round w h t ty ^^ Suc n) s0)).
               0 \<le> i \<and> i < w * h \<and> rd t i = Some ty)"
proof (induction n)
  case 0
  obtain j m where c: "cur (trace_round w h t ty s0) = nb (cur s0) m"
    and hm: "hit w h t ty (nb (cur s0) m)"
    and p: "t_path (trace_round w h t ty s0) = t_path s0 @ [cell_index w (nb (cur s0) m)]"
    using round_shape [OF g ok some] by metis
  have "in_grid w h (fst (cur s0)) (snd (cur s0))" using g by (simp add: good_def hit_def)
  moreover have "in_grid w h (fst (nb (cur s0) m)) (snd (nb (cur s0) m))"
    using hm by (simp add: hit_def)
  ultimately have "neighbours8 w (cell_index w (cur s0)) (cell_index w (nb (cur s0) m))"
    by (rule move_neighbours8)
  then show ?case using hit_cell [OF hm] by (simp add: p c empty)
next
  case (Suc n)
  let ?s = "(trace_round w h t ty ^^ Suc n) s0"
  obtain k where k: "res w h t ty k ?s" "path_ok w h ?s"
    using orbit_res [OF g ok some] by blast
  have gk: "good w h t ty k ?s" using k(1) by (simp add: res_def)
  obtain d' where d': "hit w h t ty (nb (cur ?s) d')" using res_some [OF k(1)] by blast
  obtain j m where c: "cur (trace_round w h t ty ?s) = nb (cur ?s) m"
    and hm: "hit w h t ty (nb (cur ?s) m)"
    and p: "t_path (trace_round w h t ty ?s) = t_path ?s @ [cell_index w (nb (cur ?s) m)]"
    using round_shape [OF gk k(2) d'] by metis
  have "in_grid w h (fst (cur ?s)) (snd (cur ?s))" using gk by (simp add: good_def hit_def)
  moreover have "in_grid w h (fst (nb (cur ?s) m)) (snd (nb (cur ?s) m))"
    using hm by (simp add: hit_def)
  ultimately have n8: "neighbours8 w (cell_index w (cur ?s)) (cell_index w (nb (cur ?s) m))"
    by (rule move_neighbours8)
  have "successively (neighbours8 w)
          (cell_index w (cur s0) # t_path ?s @ [cell_index w (nb (cur ?s) m)])"
    using Suc n8 by (intro successively_snoc) simp_all
  then show ?case using p c Suc hit_cell [OF hm] by simp
qed

text \<open>
  The tracer, started on a matching cell whose left neighbour does not match, returns; its
  path is empty exactly when no neighbour of the start matches, and otherwise it is a closed
  walk: it leaves the start for a neighbour, moves from neighbour to neighbour, and ends on
  the start.
\<close>

lemma trace_walk:
  assumes start: "hit w h t ty (x, y)" and left: "\<not> hit w h t ty (x - 1, y)"
  shows "\<exists>p. trace x y w h t ty = Some p
           \<and> successively (neighbours8 w) ((x + y * w) # p)
           \<and> (p \<noteq> [] \<longrightarrow> last p = x + y * w)
           \<and> (p = [] \<longleftrightarrow> (\<forall>d. \<not> hit w h t ty (nb (x, y) d)))
           \<and> (\<forall>i \<in> set p. 0 \<le> i \<and> i < w * h \<and> rd t i = Some ty)"
proof -
  let ?s0 = "\<lparr>t_px = x, t_py = y, t_bx = x - 1, t_by = y, t_path = []\<rparr>"
  let ?f = "trace_round w h t ty"
  have cur0: "cur ?s0 = (x, y)" by (simp add: cur_def)
  have g: "good w h t ty 7 ?s0"
    using start left by (simp add: good_def cur_def backtrack_def nb_values)
  have ok: "path_ok w h ?s0" using start by (simp add: path_ok_def hit_def)
  have tr: "trace x y w h t ty = trace_loop w h t ty x y ?s0" by (simp add: trace_def)
  show ?thesis
  proof (cases "\<exists>d. hit w h t ty (nb (x, y) d)")
    case False
    then have "?f ?s0 = ?s0\<lparr>t_bx := fst (nb (cur ?s0) (7 + 7)), t_by := snd (nb (cur ?s0) (7 + 7))\<rparr>"
      using trace_round_stay [OF g ok] by (simp add: cur0)
    then have "cur (?f ?s0) = (x, y)" "t_path (?f ?s0) = []" by (simp_all add: cur_def)
    then have "trace x y w h t ty = Some []" unfolding tr by (subst trace_loop_unroll) simp
    then show ?thesis using False by simp
  next
    case True
    then obtain d where d: "hit w h t ty (nb (cur ?s0) d)" by (auto simp: cur0)
    obtain n where "cur ((?f ^^ Suc n) ?s0) = (x, y)"
      using orbit_returns [OF g ok d] by (auto simp: cur0)
    then obtain m where m: "cur ((?f ^^ Suc m) ?s0) = (x, y)"
      "trace_loop w h t ty x y ?s0 = Some (t_path ((?f ^^ Suc m) ?s0))"
      using trace_loop_exit by blast
    have walk: "successively (neighbours8 w) (cell_index w (cur ?s0) # t_path ((?f ^^ Suc m) ?s0))
         \<and> t_path ((?f ^^ Suc m) ?s0) \<noteq> []
         \<and> last (t_path ((?f ^^ Suc m) ?s0)) = cell_index w (cur ((?f ^^ Suc m) ?s0))
         \<and> (\<forall>i \<in> set (t_path ((?f ^^ Suc m) ?s0)). 0 \<le> i \<and> i < w * h \<and> rd t i = Some ty)"
      by (rule orbit_walk [OF g ok _ d]) simp
    show ?thesis
      using walk True unfolding tr m(2) m(1) cur0 by (simp add: cell_index_def)
  qed
qed

section \<open>The flood fill of the lands\<close>

lemma cell_coords:
  fixes w h n :: int
  assumes "0 < w" "0 \<le> n" "n < w * h"
  shows "in_grid w h (n mod w) (n div w)" "n mod w + n div w * w = n"
proof -
  have "n = n div w * w + n mod w" by simp
  moreover have "0 \<le> n mod w" using assms(1) by simp
  ultimately have "n div w * w \<le> n" by linarith
  then have "n div w * w < h * w" using assms(3) by (simp add: mult.commute)
  then have "n div w < h" using assms(1) by (simp add: mult_less_cancel_right)
  moreover have "0 \<le> n div w" using assms by (simp add: pos_imp_zdiv_nonneg_iff)
  ultimately show "in_grid w h (n mod w) (n div w)" using assms by (simp add: in_grid_def)
  show "n mod w + n div w * w = n" by simp
qed

lemma offsets_unit:
  "(dx, dy) \<in> set neighbour_offsets \<longleftrightarrow> max \<bar>dx\<bar> \<bar>dy\<bar> = 1"
proof
  assume "(dx, dy) \<in> set neighbour_offsets"
  then show "max \<bar>dx\<bar> \<bar>dy\<bar> = 1" by (auto simp: neighbour_offsets_def)
next
  assume m: "max \<bar>dx\<bar> \<bar>dy\<bar> = 1"
  then have "dx \<in> {-1, 0, 1}" "dy \<in> {-1, 0, 1}" by (auto simp: max_def split: if_splits)
  then show "(dx, dy) \<in> set neighbour_offsets" using m by (auto simp: neighbour_offsets_def)
qed

lemma offset_adj:
  assumes "0 < w"
  shows "(\<exists>d \<in> set neighbour_offsets.
            in_grid w h (a mod w + fst d) (a div w + snd d)
            \<and> n = (a mod w + fst d) + (a div w + snd d) * w)
         \<longleftrightarrow> adj w h a n"
proof
  assume "\<exists>d \<in> set neighbour_offsets.
            in_grid w h (a mod w + fst d) (a div w + snd d)
            \<and> n = (a mod w + fst d) + (a div w + snd d) * w"
  then obtain dx dy where d: "(dx, dy) \<in> set neighbour_offsets"
    and g: "in_grid w h (a mod w + dx) (a div w + dy)"
    and n: "n = (a mod w + dx) + (a div w + dy) * w" by auto
  have "n mod w = a mod w + dx" "n div w = a div w + dy"
    using g unfolding n by (simp_all add: in_grid_def)
  then have "neighbours8 w a n" using d by (simp add: neighbours8_def offsets_unit)
  then show "adj w h a n" using in_grid_index [OF g] n by (simp add: adj_def)
next
  assume a: "adj w h a n"
  then have n: "0 \<le> n" "n < w * h" and m: "max \<bar>a mod w - n mod w\<bar> \<bar>a div w - n div w\<bar> = 1"
    by (simp_all add: adj_def neighbours8_def)
  let ?d = "(n mod w - a mod w, n div w - a div w)"
  have "?d \<in> set neighbour_offsets" using m by (simp add: offsets_unit abs_minus_commute)
  moreover have "in_grid w h (a mod w + fst ?d) (a div w + snd ?d)"
    using cell_coords(1) [OF assms n] by simp
  moreover have "n = (a mod w + fst ?d) + (a div w + snd ?d) * w" by simp
  ultimately show "\<exists>d \<in> set neighbour_offsets.
            in_grid w h (a mod w + fst d) (a div w + snd d)
            \<and> n = (a mod w + fst d) + (a div w + snd d) * w" by blast
qed

lemma adj_sym: "adj w h a b \<Longrightarrow> 0 \<le> a \<Longrightarrow> a < w * h \<Longrightarrow> adj w h b a"
  by (simp add: adj_def neighbours8_def abs_minus_commute)

lemma land_visit_eq:
  "land_visit w h t x y d (seen, stack, tiles) =
     (if in_grid w h (x + fst d) (y + snd d) \<and> dry t ((x + fst d) + (y + snd d) * w)
         \<and> (x + fst d) + (y + snd d) * w \<notin> seen
      then (insert ((x + fst d) + (y + snd d) * w) seen,
            ((x + fst d) + (y + snd d) * w) # stack,
            insert ((x + fst d) + (y + snd d) * w) tiles)
      else (seen, stack, tiles))"
  by (cases d) (simp add: land_visit_def dry_def Let_def)

lemma land_visit_fold:
  "fold (land_visit w h t x y) ds (seen, stack, tiles) = (seen', stack', tiles') \<Longrightarrow>
   N = {n. \<exists>d \<in> set ds. in_grid w h (x + fst d) (y + snd d)
              \<and> n = (x + fst d) + (y + snd d) * w \<and> dry t n} \<Longrightarrow>
   seen' = seen \<union> N \<and> tiles' = tiles \<union> (N - seen) \<and> set stack' = set stack \<union> (N - seen)"
proof (induction ds arbitrary: seen stack tiles N)
  case Nil
  then show ?case by simp
next
  case (Cons d ds)
  let ?n = "(x + fst d) + (y + snd d) * w"
  let ?M = "{n. \<exists>d \<in> set ds. in_grid w h (x + fst d) (y + snd d)
              \<and> n = (x + fst d) + (y + snd d) * w \<and> dry t n}"
  show ?case
  proof (cases "in_grid w h (x + fst d) (y + snd d) \<and> dry t ?n \<and> ?n \<notin> seen")
    case True
    then have "fold (land_visit w h t x y) ds (insert ?n seen, ?n # stack, insert ?n tiles)
                 = (seen', stack', tiles')"
      using Cons.prems(1) by (simp add: land_visit_eq)
    then have r: "seen' = insert ?n seen \<union> ?M" "tiles' = insert ?n tiles \<union> (?M - insert ?n seen)"
      "set stack' = set (?n # stack) \<union> (?M - insert ?n seen)"
      using Cons.IH [of "insert ?n seen" "?n # stack" "insert ?n tiles" ?M] by simp_all
    have N: "N = insert ?n ?M" using True Cons.prems(2) by auto
    show ?thesis unfolding r N using True by auto
  next
    case False
    have "land_visit w h t x y d (seen, stack, tiles) = (seen, stack, tiles)"
      by (subst land_visit_eq) (rule if_not_P [OF False])
    then have "fold (land_visit w h t x y) ds (seen, stack, tiles) = (seen', stack', tiles')"
      using Cons.prems(1) by simp
    then have r: "seen' = seen \<union> ?M" "tiles' = tiles \<union> (?M - seen)"
      "set stack' = set stack \<union> (?M - seen)"
      using Cons.IH [of seen stack tiles ?M] by simp_all
    have N: "N - seen = ?M - seen" "seen \<union> N = seen \<union> ?M" using False Cons.prems(2) by auto
    show ?thesis unfolding r using N by auto
  qed
qed

lemma land_visit_all:
  assumes "0 < w"
    and "fold (land_visit w h t (i mod w) (i div w)) neighbour_offsets (seen, stack, tiles)
           = (seen', stack', tiles')"
  shows "seen' = seen \<union> {n. adj w h i n \<and> dry t n}"
    "tiles' = tiles \<union> ({n. adj w h i n \<and> dry t n} - seen)"
    "set stack' = set stack \<union> ({n. adj w h i n \<and> dry t n} - seen)"
proof -
  have "{n. \<exists>d \<in> set neighbour_offsets. in_grid w h (i mod w + fst d) (i div w + snd d)
              \<and> n = (i mod w + fst d) + (i div w + snd d) * w \<and> dry t n}
        = {n. adj w h i n \<and> dry t n}"
    using offset_adj [OF assms(1), of h i] by auto
  then show "seen' = seen \<union> {n. adj w h i n \<and> dry t n}"
    "tiles' = tiles \<union> ({n. adj w h i n \<and> dry t n} - seen)"
    "set stack' = set stack \<union> ({n. adj w h i n \<and> dry t n} - seen)"
    using land_visit_fold [OF assms(2) refl] by simp_all
qed

lemma settled_mono: "settled w h t seen c \<Longrightarrow> seen \<subseteq> seen' \<Longrightarrow> settled w h t seen' c"
  by (auto simp: settled_def)

lemma fill_inv_step:
  assumes w: "0 < w" and inv: "fill_inv w h t old B (seen, i # stack, tiles)"
  shows "fill_inv w h t old B
           (fold (land_visit w h t (i mod w) (i div w)) neighbour_offsets (seen, stack, tiles))"
proof -
  obtain seen' stack' tiles' where
    f: "fold (land_visit w h t (i mod w) (i div w)) neighbour_offsets (seen, stack, tiles)
          = (seen', stack', tiles')" by (metis prod_cases3)
  let ?N = "{n. adj w h i n \<and> dry t n}"
  note r = land_visit_all [OF w f]
  from inv have old: "old \<subseteq> seen" and tiles: "tiles = seen - old"
    and i: "0 \<le> i" "i < w * h" "dry t i" "i \<notin> old"
    and stack: "\<forall>j \<in> set stack. 0 \<le> j \<and> j < w * h \<and> dry t j \<and> j \<notin> old"
    and cl: "\<forall>c \<in> seen \<union> B. c \<in> set (i # stack) \<or> settled w h t seen c"
    and mk: "marked_ok w h t seen"
    and new: "\<forall>n \<in> seen - old. \<exists>q. adj w h n q \<and> dry t q \<and> q \<notin> old"
    by (simp_all add: fill_inv_def)
  have behind: "adj w h n i" if "n \<in> ?N" for n
    using that i adj_sym by blast
  have cells: "0 \<le> n \<and> n < w * h" if "n \<in> ?N" for n
    using that by (simp add: adj_def)
  have "settled w h t seen' i" unfolding r settled_def by blast
  have 1: "old \<subseteq> seen'" using old unfolding r by blast
  have 2: "tiles' = seen' - old" using old unfolding r tiles by blast
  have 3: "\<forall>j \<in> set stack'. 0 \<le> j \<and> j < w * h \<and> dry t j \<and> j \<notin> old"
  proof
    fix j assume "j \<in> set stack'"
    then consider "j \<in> set stack" | "j \<in> ?N" "j \<notin> seen" unfolding r by blast
    then show "0 \<le> j \<and> j < w * h \<and> dry t j \<and> j \<notin> old"
    proof cases
      case 1 then show ?thesis using stack by blast
    next
      case 2 then show ?thesis using cells [of j] old by blast
    qed
  qed
  have 4: "\<forall>c \<in> seen' \<union> B. c \<in> set stack' \<or> settled w h t seen' c"
  proof
    fix c assume "c \<in> seen' \<union> B"
    then consider "c \<in> seen \<union> B" | "c \<in> ?N" "c \<notin> seen" unfolding r by blast
    then show "c \<in> set stack' \<or> settled w h t seen' c"
    proof cases
      case 1
      then consider "c = i" | "c \<in> set stack" | "settled w h t seen c" using cl by auto
      then show ?thesis
      proof cases
        case 1 then show ?thesis using \<open>settled w h t seen' i\<close> by simp
      next
        case 2 then show ?thesis unfolding r by blast
      next
        case 3
        have "seen \<subseteq> seen'" unfolding r by blast
        then show ?thesis using settled_mono [OF 3] by blast
      qed
    next
      case 2 then show ?thesis unfolding r by blast
    qed
  qed
  have 5: "marked_ok w h t seen'"
    unfolding marked_ok_def
  proof
    fix n assume "n \<in> seen'"
    then consider "n \<in> seen" | "n \<in> ?N" unfolding r by blast
    then show "0 \<le> n \<and> n < w * h \<and> dry t n \<and> (\<exists>q. adj w h n q \<and> dry t q)"
    proof cases
      case 1 then show ?thesis using mk by (simp add: marked_ok_def)
    next
      case 2 then show ?thesis using cells [of n] behind [of n] i(3) by blast
    qed
  qed
  have 6: "\<forall>n \<in> seen' - old. \<exists>q. adj w h n q \<and> dry t q \<and> q \<notin> old"
  proof
    fix n assume "n \<in> seen' - old"
    then consider "n \<in> seen - old" | "n \<in> ?N" unfolding r by blast
    then show "\<exists>q. adj w h n q \<and> dry t q \<and> q \<notin> old"
    proof cases
      case 1 then show ?thesis using new by blast
    next
      case 2 then show ?thesis using behind [of n] i(3,4) by blast
    qed
  qed
  show ?thesis unfolding f fill_inv_def using 1 2 3 4 5 6 by simp
qed

lemma land_fill_inv:
  "0 < w \<Longrightarrow> fill_inv w h t old B s \<Longrightarrow>
   fill_inv w h t old B (fst (land_fill w h t s), [], snd (land_fill w h t s))"
proof (induction w h t s rule: land_fill.induct)
  case (1 w h t seen tiles)
  then show ?case by simp
next
  case (2 w h t seen i stack tiles)
  have "fill_inv w h t old B
          (fold (land_visit w h t (i mod w) (i div w)) neighbour_offsets (seen, stack, tiles))"
    using fill_inv_step [OF "2.prems"] .
  then show ?case using "2.IH" [OF "2.prems"(1)] by simp
qed

section \<open>The scan of the lands\<close>

lemma valid_rd:
  assumes "valid_grid w h t" "0 \<le> n" "n < w * h"
  shows "rd t n = Some WATER \<or> rd t n = Some LAND"
proof -
  have l: "nat n < length t" using assms by (simp add: valid_grid_def nat_less_iff)
  then have "t ! nat n \<in> set t" by simp
  then have "t ! nat n = WATER \<or> t ! nat n = LAND" using assms(1) unfolding valid_grid_def by blast
  moreover have "rd t n = Some (t ! nat n)" using l assms(2) by (simp add: rd_def)
  ultimately show ?thesis by simp
qed

lemma dry_land:
  assumes "valid_grid w h t" "0 \<le> n" "n < w * h"
  shows "dry t n \<longleftrightarrow> rd t n = Some LAND"
  using valid_rd [OF assms] by (auto simp: dry_def)

lemma scan_inv_init: "scan_inv w h t 0 {}"
  by (auto simp: scan_inv_def marked_ok_def)

lemma scan_inv_skip:
  assumes "scan_inv w h t k seen" "\<not> dry t k \<or> k \<in> seen"
  shows "scan_inv w h t (k + 1) seen"
proof -
  have "settled w h t seen c" if "0 \<le> c" "c < k + 1" "dry t c" for c
  proof (cases "c = k")
    case True
    then show ?thesis using assms that by (auto simp: scan_inv_def)
  next
    case False
    then have "c < k" using that by simp
    then show ?thesis using assms(1) that by (simp add: scan_inv_def)
  qed
  then show ?thesis using assms(1) by (simp add: scan_inv_def)
qed

lemma land_fill_first:
  assumes "0 < w" "{n. adj w h c n \<and> dry t n} \<subseteq> seen"
  shows "land_fill w h t (seen, [c], {}) = (seen, {})"
proof -
  obtain seen' stack' tiles' where
    f: "fold (land_visit w h t (c mod w) (c div w)) neighbour_offsets (seen, [], {})
          = (seen', stack', tiles')" by (metis prod_cases3)
  note r = land_visit_all [OF assms(1) f]
  have "set stack' = {}" using r(3) assms(2) by auto
  then have "seen' = seen" "tiles' = {}" "stack' = []" using r(1,2) assms(2) by auto
  then show ?thesis using f by simp
qed

lemma land_fill_seed:
  assumes w: "0 < w" and inv: "scan_inv w h t k seen"
    and k: "0 \<le> k" "k < w * h" "dry t k" "k \<notin> seen"
  shows "scan_inv w h t (k + 1) (fst (land_fill w h t (seen, [k], {})))"
    and "snd (land_fill w h t (seen, [k], {})) \<noteq> {}
         \<Longrightarrow> k \<in> snd (land_fill w h t (seen, [k], {}))"
proof -
  let ?B = "{c. 0 \<le> c \<and> c < k + 1 \<and> dry t c}"
  let ?r = "land_fill w h t (seen, [k], {})"
  have "c = k \<or> settled w h t seen c" if "c \<in> seen \<union> ?B" for c
  proof (cases "c = k")
    case False
    then have "c \<in> seen \<or> (0 \<le> c \<and> c < k \<and> dry t c)" using that by auto
    then show ?thesis using inv by (auto simp: scan_inv_def)
  qed simp
  then have "fill_inv w h t seen ?B (seen, [k], {})"
    unfolding fill_inv_def using inv k by (simp add: scan_inv_def)
  then have "fill_inv w h t seen ?B (fst ?r, [], snd ?r)" by (rule land_fill_inv [OF w])
  then have cl: "\<forall>c \<in> fst ?r \<union> ?B. settled w h t (fst ?r) c" and mk: "marked_ok w h t (fst ?r)"
    and tl: "snd ?r = fst ?r - seen" by (simp_all add: fill_inv_def)
  show "scan_inv w h t (k + 1) (fst ?r)" using cl mk by (simp add: scan_inv_def)
  show "k \<in> snd ?r" if ne: "snd ?r \<noteq> {}"
  proof -
    have "\<not> {n. adj w h k n \<and> dry t n} \<subseteq> seen"
    proof
      assume "{n. adj w h k n \<and> dry t n} \<subseteq> seen"
      then have "?r = (seen, {})" by (rule land_fill_first [OF w])
      then show False using ne by simp
    qed
    then obtain n where n: "adj w h k n" "dry t n" by blast
    have "settled w h t (fst ?r) k" using cl k by simp
    then have "n \<in> fst ?r" using n by (auto simp: settled_def)
    then have "settled w h t (fst ?r) n" using cl by simp
    moreover have "adj w h n k" using adj_sym [OF n(1) k(1,2)] .
    ultimately have "k \<in> fst ?r" using k(3) by (auto simp: settled_def)
    then show ?thesis using tl k(4) by simp
  qed
qed

text \<open>
  Where the scan starts a region, the cell on the left is not LAND: it would be a dry
  cell before the start, whose dry neighbours are all marked.
\<close>

lemma start_left_free:
  assumes inv: "scan_inv w h t k seen" and g: "in_grid w h x y" and kk: "k = x + y * w"
    and d: "dry t k" and ns: "k \<notin> seen"
  shows "\<not> hit w h t LAND (x - 1, y)"
proof
  assume a: "hit w h t LAND (x - 1, y)"
  then have g': "in_grid w h (x - 1) y" and l: "rd t (x - 1 + y * w) = Some LAND"
    by (simp_all add: hit_def)
  have e: "x - 1 + y * w = k - 1" using kk by simp
  have b: "0 \<le> k - 1" "k - 1 < k" using in_grid_index [OF g'] e by simp_all
  have "dry t (k - 1)" using l e by (simp add: dry_def)
  then have "settled w h t seen (k - 1)" using inv b by (simp add: scan_inv_def)
  moreover have "adj w h (k - 1) k"
  proof -
    have "(k - 1) mod w = x - 1" "(k - 1) div w = y"
      using cell_index_coords [of w h "(x - 1, y)"] g' e by (simp_all add: cell_index_def)
    moreover have "k mod w = x" "k div w = y"
      using cell_index_coords [of w h "(x, y)"] g kk by (simp_all add: cell_index_def)
    ultimately have "neighbours8 w (k - 1) k" by (simp add: neighbours8_def)
    then show ?thesis using in_grid_index [OF g] kk by (simp add: adj_def)
  qed
  ultimately have "k \<in> seen" using d by (auto simp: settled_def)
  then show False using ns by simp
qed

lemma hit_adj:
  assumes g: "in_grid w h x y" and a: "hit w h t ty (nb (x, y) d)"
  shows "\<exists>n. adj w h (x + y * w) n \<and> rd t n = Some ty"
proof -
  let ?c = "nb (x, y) d"
  have g': "in_grid w h (fst ?c) (snd ?c)" and r: "rd t (cell_index w ?c) = Some ty"
    using a by (simp_all add: hit_def cell_index_def)
  have "neighbours8 w (cell_index w (x, y)) (cell_index w ?c)"
    using move_neighbours8 [of w h "(x, y)" d] g g' by simp
  then have "adj w h (x + y * w) (cell_index w ?c)"
    using in_grid_index [OF g'] by (simp add: adj_def cell_index_def)
  then show ?thesis using r by blast
qed

lemma offset_dir:
  assumes "(dx, dy) \<in> set neighbour_offsets"
  shows "\<exists>d. dir d = (dx, dy)"
proof -
  from assms consider "(dx, dy) = dir 0" | "(dx, dy) = dir 1" | "(dx, dy) = dir 2"
    | "(dx, dy) = dir 3" | "(dx, dy) = dir 4" | "(dx, dy) = dir 5" | "(dx, dy) = dir 6"
    | "(dx, dy) = dir 7"
    by (auto simp: neighbour_offsets_def dir_values)
  then show ?thesis by metis
qed

lemma adj_hit:
  assumes w: "0 < w" and g: "in_grid w h x y" and a: "adj w h (x + y * w) n"
    and r: "rd t n = Some ty"
  shows "\<exists>d. hit w h t ty (nb (x, y) d)"
proof -
  have c: "(x + y * w) mod w = x" "(x + y * w) div w = y"
    using cell_index_coords [of w h "(x, y)"] g by (simp_all add: cell_index_def)
  from a have n: "0 \<le> n" "n < w * h" and "neighbours8 w (x + y * w) n"
    by (simp_all add: adj_def)
  then have m: "max \<bar>x - n mod w\<bar> \<bar>y - n div w\<bar> = 1"
    unfolding neighbours8_def c by simp
  have g': "in_grid w h (n mod w) (n div w)" using cell_coords(1) [OF w n] .
  have "(n mod w - x, n div w - y) \<in> set neighbour_offsets"
    using m by (simp add: offsets_unit abs_minus_commute)
  then obtain d where "dir d = (n mod w - x, n div w - y)" using offset_dir by blast
  then have "nb (x, y) d = (n mod w, n div w)" by (simp add: nb_def)
  then have "hit w h t ty (nb (x, y) d)" using g' r by (simp add: hit_def)
  then show ?thesis ..
qed

lemma region_start:
  assumes v: "valid_grid w h t" and inv: "scan_inv w h t k seen" and g: "in_grid w h x y"
    and kk: "k = x + y * w" and d: "rd t k \<noteq> Some WATER" and ns: "k \<notin> seen"
  shows "\<exists>p. trace x y w h t LAND = Some p
           \<and> (\<forall>i \<in> set p. 0 \<le> i \<and> i < w * h \<and> rd t i = Some LAND)
           \<and> (snd (land_fill w h t (seen, [k], {})) \<noteq> {}
                \<longrightarrow> k \<in> snd (land_fill w h t (seen, [k], {})) \<and> closed_walk w k p)
           \<and> (\<not> (\<exists>n. adj w h k n \<and> rd t n = Some LAND) \<longrightarrow> p = [])"
proof -
  have w: "0 < w" using v by (simp add: valid_grid_def)
  have b: "0 \<le> k" "k < w * h" using in_grid_index [OF g] kk by simp_all
  have dk: "dry t k" using d by (simp add: dry_def)
  then have "rd t k = Some LAND" using dry_land [OF v b] by simp
  then have start: "hit w h t LAND (x, y)" using g kk by (simp add: hit_def)
  have left: "\<not> hit w h t LAND (x - 1, y)" using start_left_free [OF inv g kk dk ns] .
  obtain p where p: "trace x y w h t LAND = Some p"
    and walk: "successively (neighbours8 w) ((x + y * w) # p)"
    and lst: "p \<noteq> [] \<longrightarrow> last p = x + y * w"
    and emp: "p = [] \<longleftrightarrow> (\<forall>d. \<not> hit w h t LAND (nb (x, y) d))"
    and cells: "\<forall>i \<in> set p. 0 \<le> i \<and> i < w * h \<and> rd t i = Some LAND"
    using trace_walk [OF start left] by blast
  let ?r = "land_fill w h t (seen, [k], {})"
  have "k \<in> snd ?r \<and> closed_walk w k p" if ne: "snd ?r \<noteq> {}"
  proof -
    have "\<not> {n. adj w h k n \<and> dry t n} \<subseteq> seen"
    proof
      assume "{n. adj w h k n \<and> dry t n} \<subseteq> seen"
      then have "?r = (seen, {})" by (rule land_fill_first [OF w])
      then show False using ne by simp
    qed
    then obtain n where n: "adj w h k n" "dry t n" by blast
    then have "rd t n = Some LAND" using dry_land [OF v, of n] by (simp add: adj_def)
    then have "\<exists>d. hit w h t LAND (nb (x, y) d)" using adj_hit [OF w g] n(1) kk by blast
    then have "p \<noteq> []" using emp by blast
    then have "closed_walk w k p" using walk lst kk by (simp add: closed_walk_def)
    then show ?thesis using land_fill_seed(2) [OF w inv b dk ns ne] by simp
  qed
  moreover have "p = []" if "\<not> (\<exists>n. adj w h k n \<and> rd t n = Some LAND)"
    using that hit_adj [OF g] emp kk by blast
  ultimately show ?thesis using p cells by blast
qed

lemma row_major_append:
  "row_major w h k (xs @ ys) \<longleftrightarrow> row_major w h k xs \<and> row_major w h (k + int (length xs)) ys"
  by (induction xs arbitrary: k) (auto simp: algebra_simps)

lemma row_major_row:
  "0 \<le> a \<Longrightarrow> 0 \<le> y \<Longrightarrow> y < h \<Longrightarrow> nat (w - a) = n \<Longrightarrow>
   row_major w h (a + y * w) (map (\<lambda>x. (x, y)) [a..w - 1])"
proof (induction n arbitrary: a)
  case 0
  then show ?case by simp
next
  case (Suc n)
  then have a: "a \<le> w - 1" by simp
  have "row_major w h (a + 1 + y * w) (map (\<lambda>x. (x, y)) [a + 1..w - 1])"
    using Suc.IH [of "a + 1"] Suc.prems by simp
  then show ?case
    using Suc.prems a by (subst upto_rec1) (simp_all add: in_grid_def cell_index_def algebra_simps)
qed

lemma row_major_rows:
  "0 < w \<Longrightarrow> 0 \<le> b \<Longrightarrow> nat (h - b) = n \<Longrightarrow>
   row_major w h (b * w) (concat (map (\<lambda>y. map (\<lambda>x. (x, y)) [0..w - 1]) [b..h - 1]))"
proof (induction n arbitrary: b)
  case 0
  then show ?case by simp
next
  case (Suc n)
  then have b: "b \<le> h - 1" by simp
  have r: "row_major w h (b * w) (map (\<lambda>x. (x, b)) [0..w - 1])"
    using row_major_row [of 0 b h w] Suc.prems b by simp
  have "row_major w h ((b + 1) * w)
          (concat (map (\<lambda>y. map (\<lambda>x. (x, y)) [0..w - 1]) [b + 1..h - 1]))"
    using Suc.IH [of "b + 1"] Suc.prems by simp
  then show ?case
    using r Suc.prems(1) by (subst upto_rec1 [OF b]) (simp add: row_major_append algebra_simps)
qed

lemma scan_row_major: "0 < w \<Longrightarrow> row_major w h 0 (scan w h)"
  using row_major_rows [of w 0 h] by (simp add: scan_def)

lemma scan_member: "in_grid w h x y \<Longrightarrow> (x, y) \<in> set (scan w h)"
  by (auto simp: scan_def in_grid_def intro!: bexI [of _ y])

lemma land_scan_append:
  "land_scan w h t (xs @ ys) st =
     (case land_scan w h t xs st of None \<Rightarrow> None | Some st' \<Rightarrow> land_scan w h t ys st')"
proof (induction xs arbitrary: st)
  case Nil
  then show ?case by simp
next
  case (Cons c xs)
  obtain x y where c: "c = (x, y)" by (cases c)
  obtain seen regions ident where st: "st = (seen, regions, ident)" by (cases st)
  show ?case unfolding c st using Cons.IH
    by (simp add: Let_def split: prod.splits option.splits)
qed

lemma land_scan_run:
  assumes v: "valid_grid w h t"
  shows "row_major w h k cs \<Longrightarrow> 0 \<le> k \<Longrightarrow> scan_inv w h t k seen \<Longrightarrow>
         \<exists>seen' new. land_scan w h t cs (seen, regions, ident)
                        = Some (seen', regions @ new, ident + int (length new))
                    \<and> scan_inv w h t (k + int (length cs)) seen'
                    \<and> (\<forall>r \<in> set new. region_ok w h t r)"
proof (induction cs arbitrary: k seen regions ident)
  case Nil
  then show ?case by simp
next
  case (Cons c cs)
  obtain x y where c: "c = (x, y)" by (cases c)
  have w: "0 < w" using v by (simp add: valid_grid_def)
  have g: "in_grid w h x y" and kk: "k = x + y * w" and rest: "row_major w h (k + 1) cs"
    using Cons.prems(1) by (auto simp: c cell_index_def)
  have b: "0 \<le> k" "k < w * h" "0 \<le> k + 1" using in_grid_index [OF g] kk by simp_all
  show ?case
  proof (cases "rd t k = Some WATER \<or> k \<in> seen")
    case True
    then have "scan_inv w h t (k + 1) seen"
      using scan_inv_skip [OF Cons.prems(3)] by (auto simp: dry_def)
    from Cons.IH [OF rest b(3) this, of regions ident]
    obtain seen' new where
      "land_scan w h t cs (seen, regions, ident) = Some (seen', regions @ new, ident + int (length new))"
      "scan_inv w h t (k + 1 + int (length cs)) seen'" "\<forall>r \<in> set new. region_ok w h t r"
      by blast
    moreover have "land_scan w h t (c # cs) (seen, regions, ident)
                     = land_scan w h t cs (seen, regions, ident)"
      using True unfolding c by (auto simp: Let_def kk)
    ultimately show ?thesis by (auto simp: algebra_simps)
  next
    case False
    then have d: "rd t k \<noteq> Some WATER" and ns: "k \<notin> seen" by simp_all
    obtain seen1 tiles1 where lf: "land_fill w h t (seen, [k], {}) = (seen1, tiles1)"
      by (cases "land_fill w h t (seen, [k], {})")
    obtain p where p: "trace x y w h t LAND = Some p"
      and cw: "tiles1 \<noteq> {} \<longrightarrow> k \<in> tiles1 \<and> closed_walk w k p"
      and pc: "\<forall>i \<in> set p. 0 \<le> i \<and> i < w * h \<and> rd t i = Some LAND"
      using region_start [OF v Cons.prems(3) g kk d ns] unfolding lf by auto
    let ?r = "\<lparr>land_id = ident, land_tiles = tiles1, land_path = p\<rparr>"
    have ok: "region_ok w h t ?r" unfolding region_ok_def using g p cw pc kk by auto
    have "scan_inv w h t (k + 1) seen1"
      using land_fill_seed(1) [OF w Cons.prems(3) b(1,2) _ ns] d unfolding lf
      by (simp add: dry_def)
    from Cons.IH [OF rest b(3) this, of "regions @ [?r]" "ident + 1"]
    obtain seen' new where
      n: "land_scan w h t cs (seen1, regions @ [?r], ident + 1)
            = Some (seen', (regions @ [?r]) @ new, ident + 1 + int (length new))"
      "scan_inv w h t (k + 1 + int (length cs)) seen'" "\<forall>r \<in> set new. region_ok w h t r"
      by blast
    have "land_scan w h t (c # cs) (seen, regions, ident)
            = land_scan w h t cs (seen1, regions @ [?r], ident + 1)"
      using d ns unfolding c by (simp add: Let_def kk [symmetric] lf p del: land_fill.simps LAND_def)
    then have "land_scan w h t (c # cs) (seen, regions, ident)
                 = Some (seen', regions @ (?r # new), ident + int (length (?r # new)))"
      using n(1) by (simp add: algebra_simps)
    moreover have "scan_inv w h t (k + int (length (c # cs))) seen'"
      using n(2) by (simp add: algebra_simps)
    moreover have "\<forall>r \<in> set (?r # new). region_ok w h t r" using ok n(3) by simp
    ultimately show ?thesis by blast
  qed
qed

lemma land_fill_reached:
  assumes v: "valid_grid w h t" and c: "c \<in> snd (land_fill w h t (seen, [c], {}))"
  shows "\<exists>n. adj w h c n \<and> rd t n = Some LAND"
proof -
  have w: "0 < w" using v by (simp add: valid_grid_def)
  have "\<not> {n. adj w h c n \<and> dry t n} \<subseteq> seen"
  proof
    assume "{n. adj w h c n \<and> dry t n} \<subseteq> seen"
    then have "land_fill w h t (seen, [c], {}) = (seen, {})" by (rule land_fill_first [OF w])
    then show False using c by simp
  qed
  then obtain n where n: "adj w h c n" "dry t n" by blast
  then have "rd t n = Some LAND" using dry_land [OF v, of n] by (simp add: adj_def)
  then show ?thesis using n(1) by blast
qed

lemma isolated_region:
  assumes v: "valid_grid w h t" and g: "in_grid w h x y" and l: "rd t (x + y * w) = Some LAND"
    and iso: "\<not> (\<exists>n. adj w h (x + y * w) n \<and> rd t n = Some LAND)"
  shows "\<exists>pre post seen regions ident rest.
           scan w h = pre @ (x, y) # post
         \<and> land_scan w h t pre ({}, [], 0) = Some (seen, regions, ident)
         \<and> x + y * w \<notin> seen
         \<and> land_fill w h t (seen, [x + y * w], {}) = (seen, {})
         \<and> trace x y w h t LAND = Some []
         \<and> detectLands w h t
             = Some (regions @ \<lparr>land_id = ident, land_tiles = {}, land_path = []\<rparr> # rest)"
proof -
  let ?k = "x + y * w"
  have w: "0 < w" using v by (simp add: valid_grid_def)
  obtain pre post where sc: "scan w h = pre @ (x, y) # post"
    using scan_member [OF g] by (meson split_list)
  have "row_major w h 0 (pre @ (x, y) # post)" using scan_row_major [OF w, of h] sc by simp
  then have rm: "row_major w h 0 pre" "int (length pre) = ?k"
    "row_major w h (?k + 1) post"
    by (auto simp: row_major_append cell_index_def)
  obtain seen regions where
    pre: "land_scan w h t pre ({}, [], 0) = Some (seen, regions, int (length regions))"
    and inv: "scan_inv w h t ?k seen"
    using land_scan_run [OF v rm(1) _ scan_inv_init, of "[]" 0] rm(2) by auto
  have b: "0 \<le> ?k" "?k < w * h" "0 \<le> ?k + 1" using in_grid_index [OF g] by simp_all
  have nodry: "\<not> dry t n" if "adj w h ?k n" for n
    using that iso dry_land [OF v, of n] by (auto simp: adj_def)
  have ns: "?k \<notin> seen"
  proof
    assume "?k \<in> seen"
    then obtain q where "adj w h ?k q" "dry t q" using inv by (auto simp: scan_inv_def marked_ok_def)
    then show False using nodry by blast
  qed
  have lf: "land_fill w h t (seen, [?k], {}) = (seen, {})"
    using nodry by (intro land_fill_first [OF w]) blast
  have d: "rd t ?k \<noteq> Some WATER" using l by simp
  have tr: "trace x y w h t LAND = Some []"
    using region_start [OF v inv g refl d ns] iso by auto
  have dk: "dry t ?k" using d by (simp add: dry_def)
  have "scan_inv w h t (?k + 1) seen"
    using land_fill_seed(1) [OF w inv b(1,2) dk ns] unfolding lf by simp
  from land_scan_run [OF v rm(3) b(3) this,
      of "regions @ [\<lparr>land_id = int (length regions), land_tiles = {}, land_path = []\<rparr>]"
         "int (length regions) + 1"]
  obtain seen' rest where post:
    "land_scan w h t post
       (seen, regions @ [\<lparr>land_id = int (length regions), land_tiles = {}, land_path = []\<rparr>],
        int (length regions) + 1)
     = Some (seen', (regions @ [\<lparr>land_id = int (length regions), land_tiles = {}, land_path = []\<rparr>]) @ rest,
             int (length regions) + 1 + int (length rest))"
    by blast
  have step: "land_scan w h t ((x, y) # post) (seen, regions, int (length regions))
          = land_scan w h t post
              (seen, regions @ [\<lparr>land_id = int (length regions), land_tiles = {}, land_path = []\<rparr>],
               int (length regions) + 1)"
    using d ns by (simp add: Let_def lf tr del: land_fill.simps LAND_def)
  have "detectLands w h t
          = Some (regions @ \<lparr>land_id = int (length regions), land_tiles = {}, land_path = []\<rparr> # rest)"
    unfolding detectLands_def sc land_scan_append pre by (simp add: step post del: land_scan.simps)
  then show ?thesis using sc pre ns lf tr by blast
qed

section \<open>The contours of the lands\<close>




section \<open>Lands of a single cell\<close>

text \<open>
  Claim C10: on every valid grid, the seed of a fill of \<open>detectLands\<close> is among the tiles
  of the fill only if it has a LAND 8-neighbour (the fill collects the neighbours it pushes,
  never the seed directly); and for a LAND cell \<open>(x, y)\<close> with no LAND 8-neighbour, the
  scan reaches the cell unmarked, its fill returns no tile and leaves the marks as they are,
  its trace returns the empty path, and \<open>detectLands\<close> returns, after the regions found
  before the cell, a region with no tile and an empty path.
\<close>

theorem isolated_land_cell:
  assumes "valid_grid w h t"
  shows "(\<forall>seen c. c \<in> snd (land_fill w h t (seen, [c], {}))
            \<longrightarrow> (\<exists>n. adj w h c n \<and> rd t n = Some LAND))
       \<and> (\<forall>x y. in_grid w h x y \<and> rd t (x + y * w) = Some LAND
                \<and> \<not> (\<exists>n. adj w h (x + y * w) n \<and> rd t n = Some LAND)
            \<longrightarrow> (\<exists>pre post seen regions ident rest.
                   scan w h = pre @ (x, y) # post
                 \<and> land_scan w h t pre ({}, [], 0) = Some (seen, regions, ident)
                 \<and> x + y * w \<notin> seen
                 \<and> land_fill w h t (seen, [x + y * w], {}) = (seen, {})
                 \<and> trace x y w h t LAND = Some []
                 \<and> detectLands w h t
                     = Some (regions
                             @ \<lparr>land_id = ident, land_tiles = {}, land_path = []\<rparr> # rest)))"
  using land_fill_reached [OF assms] isolated_region [OF assms] by blast

lemma detectLands_3x3:
  "detectLands 3 3 [LAND, LAND, WATER, WATER, WATER, WATER, WATER, WATER, LAND]
     = Some [\<lparr>land_id = 0, land_tiles = {0, 1}, land_path = [1, 0]\<rparr>,
             \<lparr>land_id = 1, land_tiles = {}, land_path = []\<rparr>]"
  by code_simp

lemma corner_isolated:
  "\<not> (\<exists>n. adj 3 3 8 n
          \<and> rd [LAND, LAND, WATER, WATER, WATER, WATER, WATER, WATER, LAND] n = Some LAND)"
proof -
  let ?g = "[LAND, LAND, WATER, WATER, WATER, WATER, WATER, WATER, LAND]"
  have "\<forall>n \<in> set [0..8]. \<not> (neighbours8 3 8 n \<and> rd ?g n = Some LAND)" by code_simp
  moreover have "n \<in> set [0..8]" if "adj 3 3 8 n" for n using that by (simp add: adj_def)
  ultimately show ?thesis by (auto simp: adj_def)
qed

theorem isolated_land_cell_witness:
  "valid_grid 3 3 [LAND, LAND, WATER, WATER, WATER, WATER, WATER, WATER, LAND]
   \<and> in_grid 3 3 2 2
   \<and> rd [LAND, LAND, WATER, WATER, WATER, WATER, WATER, WATER, LAND] (2 + 2 * 3) = Some LAND
   \<and> \<not> (\<exists>n. adj 3 3 (2 + 2 * 3) n
            \<and> rd [LAND, LAND, WATER, WATER, WATER, WATER, WATER, WATER, LAND] n = Some LAND)
   \<and> (\<exists>pre post seen regions ident rest.
         scan 3 3 = pre @ (2, 2) # post
       \<and> land_scan 3 3 [LAND, LAND, WATER, WATER, WATER, WATER, WATER, WATER, LAND] pre ({}, [], 0)
           = Some (seen, regions, ident)
       \<and> 2 + 2 * 3 \<notin> seen
       \<and> land_fill 3 3 [LAND, LAND, WATER, WATER, WATER, WATER, WATER, WATER, LAND]
           (seen, [2 + 2 * 3], {}) = (seen, {})
       \<and> trace 2 2 3 3 [LAND, LAND, WATER, WATER, WATER, WATER, WATER, WATER, LAND] LAND = Some []
       \<and> detectLands 3 3 [LAND, LAND, WATER, WATER, WATER, WATER, WATER, WATER, LAND]
           = Some (regions @ \<lparr>land_id = ident, land_tiles = {}, land_path = []\<rparr> # rest))
   \<and> detectLands 3 3 [LAND, LAND, WATER, WATER, WATER, WATER, WATER, WATER, LAND]
       = Some [\<lparr>land_id = 0, land_tiles = {0, 1}, land_path = [1, 0]\<rparr>,
               \<lparr>land_id = 1, land_tiles = {}, land_path = []\<rparr>]"
proof -
  let ?g = "[LAND, LAND, WATER, WATER, WATER, WATER, WATER, WATER, LAND]"
  have v: "valid_grid 3 3 ?g" by (simp add: valid_grid_def)
  have g: "in_grid 3 3 2 2" by (simp add: in_grid_def)
  have l: "rd ?g (2 + 2 * 3) = Some LAND" by (simp add: rd_def)
  have i: "\<not> (\<exists>n. adj 3 3 (2 + 2 * 3) n \<and> rd ?g n = Some LAND)" using corner_isolated by simp
  from isolated_land_cell [OF v] g l i detectLands_3x3 v show ?thesis by blast
qed

end
